theory Spec2Isabelle
  imports Main "HOL-Library.AList" "HOL-Library.Sublist"
begin

section \<open>Strings\<close>

text \<open>
  A Python \<open>str\<close> is modelled as a \<open>string\<close>; a character stands for a code point
  below 256. \<open>is_space\<close> is the class \<open>\s\<close> of \<open>re\<close> and the set that
  \<open>str.strip()\<close> removes, on these code points: tab, line feed, vertical tab, form
  feed, carriage return, the separators 0x1C to 0x1F, space, 0x85 and 0xA0.
\<close>

definition is_space :: "char \<Rightarrow> bool" where
  "is_space c = (of_char c \<in> {9, 10, 11, 12, 13, 28, 29, 30, 31, 32, 133, 160 :: nat})"

definition strip :: "string \<Rightarrow> string" where
  "strip s = rev (dropWhile is_space (rev (dropWhile is_space s)))"

definition lower_char :: "char \<Rightarrow> char" where
  "lower_char c =
     (let n = of_char c :: nat
      in if (65 \<le> n \<and> n \<le> 90) \<or> (192 \<le> n \<and> n \<le> 222 \<and> n \<noteq> 215)
         then char_of (n + 32) else c)"

definition lower :: "string \<Rightarrow> string" where
  "lower s = map lower_char s"

text \<open>\<open>sep.join(parts)\<close>.\<close>

fun join :: "string \<Rightarrow> string list \<Rightarrow> string" where
  "join sep [] = []"
| "join sep [p] = p"
| "join sep (p # q # ps) = p @ sep @ join sep (q # ps)"

text \<open>\<open>str(n)\<close> for an integer: decimal digits, a minus sign when negative.\<close>

definition digit_char :: "nat \<Rightarrow> char" where
  "digit_char d = char_of (48 + d)"

fun str_nat :: "nat \<Rightarrow> string" where
  "str_nat n = (if n < 10 then [digit_char n] else str_nat (n div 10) @ [digit_char (n mod 10)])"

declare str_nat.simps [simp del]

definition str_int :: "int \<Rightarrow> string" where
  "str_int i = (if i < 0 then CHR ''-'' # str_nat (nat (- i)) else str_nat (nat i))"

text \<open>Reading decimal digits back, and the digits themselves.\<close>

definition nat_of_digits :: "string \<Rightarrow> nat" where
  "nat_of_digits s = foldl (\<lambda>a c. 10 * a + (of_char c - 48)) 0 s"

definition is_digit :: "char \<Rightarrow> bool" where
  "is_digit c = (48 \<le> (of_char c :: nat) \<and> (of_char c :: nat) \<le> 57)"

text \<open>The elements of a list, each once, in the order of their first occurrence.\<close>

fun first_occurrences :: "'a list \<Rightarrow> 'a list" where
  "first_occurrences [] = []"
| "first_occurrences (x # xs) = x # first_occurrences (removeAll x xs)"

section \<open>Entity extraction (\<open>extract_entities_from_query\<close>)\<close>

text \<open>
  The spaCy pipeline \<open>nlp\<close> is a parameter: \<open>nlp query\<close> is the list \<open>doc.ents\<close>, each
  entity a pair of its \<open>text\<close> and its \<open>label_\<close>.
\<close>

type_synonym ner = "string \<Rightarrow> (string \<times> string) list"

definition ALLOWED_LABELS :: "string set" where
  "ALLOWED_LABELS = {''PERSON'', ''ORG'', ''GPE''}"

fun extract_loop :: "string list \<Rightarrow> (string \<times> string) list \<Rightarrow> string list" where
  "extract_loop entities [] = entities"
| "extract_loop entities ((ent_text, ent_label) # ents) =
     (if ent_label \<in> ALLOWED_LABELS \<and> length (strip ent_text) > 2
      then extract_loop (entities @ [lower (strip ent_text)]) ents
      else extract_loop entities ents)"

definition extract_entities_from_query :: "ner \<Rightarrow> string \<Rightarrow> string list" where
  "extract_entities_from_query nlp query = extract_loop [] (nlp query)"

section \<open>Passages\<close>

text \<open>
  A LangChain document: its \<open>page_content\<close> and the metadata keys the chatbot reads. A
  key that may be absent is an option. Page numbers are the integers the ingestion
  writes (\<open>page_number: int\<close>).
\<close>

record document =
  page_content :: string
  document_id :: "string option"
  page_number :: "int option"
  s3_key :: "string option"
  source :: "string option"
  publication_date :: "string option"

text \<open>
  The value of \<open>metadata.get('page_number', 'N/A')\<close>: the number, or the default
  string.
\<close>

datatype page_value = PageNum int | PageStr string

fun str_page :: "page_value \<Rightarrow> string" where
  "str_page (PageNum n) = str_int n"
| "str_page (PageStr s) = s"

definition get_document_id :: "document \<Rightarrow> string" where
  "get_document_id doc = (case document_id doc of None \<Rightarrow> ''Unknown'' | Some d \<Rightarrow> d)"

definition get_page_number :: "document \<Rightarrow> page_value" where
  "get_page_number doc = (case page_number doc of None \<Rightarrow> PageStr ''N/A'' | Some n \<Rightarrow> PageNum n)"

definition get_source :: "document \<Rightarrow> string" where
  "get_source doc = (case source doc of None \<Rightarrow> ''Unknown'' | Some s \<Rightarrow> s)"

definition get_publication_date :: "document \<Rightarrow> string" where
  "get_publication_date doc = (case publication_date doc of None \<Rightarrow> ''Unknown'' | Some s \<Rightarrow> s)"

section \<open>Candidate retrieval and reranking (\<open>entity_aware_retrieval\<close>)\<close>

text \<open>
  The vector store is a parameter: \<open>vector_db query k flt\<close> is
  \<open>vector_db.similarity_search(query, k=k, filter=...)\<close>, where \<open>flt = Some es\<close> stands
  for the filter \<open>{"entities": {"$in": es}}\<close> and \<open>None\<close> for no filter. Every call is
  recorded, in order, as a \<open>search_call\<close>.
\<close>

type_synonym vector_store = "string \<Rightarrow> int \<Rightarrow> string list option \<Rightarrow> document list"

record search_call =
  call_query :: string
  call_k :: int
  call_filter :: "string list option"

definition retrieve_candidates ::
  "vector_store \<Rightarrow> string \<Rightarrow> string list \<Rightarrow> search_call list \<times> document list" where
  "retrieve_candidates vector_db query query_entities =
     (if query_entities \<noteq> [] then
        let entity_clean = map lower query_entities;
            entity_docs_max = 8;
            entity_matched_docs = vector_db query entity_docs_max (Some entity_clean);
            num_entity_matched = int (length entity_matched_docs);
            num_to_total = 8 + (entity_docs_max - num_entity_matched);
            normal_docs = vector_db query num_to_total None
        in ([\<lparr>call_query = query, call_k = entity_docs_max, call_filter = Some entity_clean\<rparr>,
             \<lparr>call_query = query, call_k = num_to_total, call_filter = None\<rparr>],
            entity_matched_docs @ normal_docs)
      else
        ([\<lparr>call_query = query, call_k = 16, call_filter = None\<rparr>],
         vector_db query 16 None))"

text \<open>
  \<open>sorted(xs, key=key, reverse=True)\<close>: CPython reverses the list, sorts it with its
  stable sort and reverses the result, so that equal keys keep their order.
\<close>

definition sorted_reverse :: "('a \<Rightarrow> 'k::linorder) \<Rightarrow> 'a list \<Rightarrow> 'a list" where
  "sorted_reverse key xs = rev (sort_key key (rev xs))"

text \<open>
  The cross-encoder is a parameter: \<open>predict pairs\<close> is \<open>reranker.predict(pairs)\<close>, the
  scores of the (query, passage) pairs in a linear order.
\<close>

definition rerank ::
  "((string \<times> string) list \<Rightarrow> 's::linorder list) \<Rightarrow> string \<Rightarrow> document list \<Rightarrow> (document \<times> 's) list" where
  "rerank predict query candidates_docs =
     (let query_content = map (\<lambda>doc. (query, page_content doc)) candidates_docs;
          rerank_scores = predict query_content;
          reranked = sorted_reverse snd (zip candidates_docs rerank_scores)
      in take 8 reranked)"

definition entity_aware_retrieval ::
  "ner \<Rightarrow> vector_store \<Rightarrow> ((string \<times> string) list \<Rightarrow> 's::linorder list) \<Rightarrow> string
     \<Rightarrow> search_call list \<times> document list" where
  "entity_aware_retrieval nlp vector_db predict query =
     (let query_entities = extract_entities_from_query nlp query;
          (calls, candidates_docs) = retrieve_candidates vector_db query query_entities;
          final_docs = map fst (rerank predict query candidates_docs)
      in (calls, final_docs))"

section \<open>Source links (\<open>generate_presigned_url\<close>)\<close>

text \<open>
  The exceptions of the model. The S3 client is a parameter: \<open>client bucket key
  expiration\<close> is \<open>s3_client.generate_presigned_url('get_object', ...)\<close>, which returns
  a URL or raises. The module's globals \<open>s3_client\<close> and \<open>bucket_name\<close> are the fields
  of \<open>s3_env\<close>; \<open>None\<close> is an unset one.
\<close>

datatype error = ClientError | IndexError | KeyError | StopIteration

type_synonym s3_api = "string \<Rightarrow> string \<Rightarrow> nat \<Rightarrow> error + string"

record s3_env =
  s3_client :: "s3_api option"
  bucket_name :: "string option"

definition generate_presigned_url :: "s3_env \<Rightarrow> string \<Rightarrow> nat \<Rightarrow> string" where
  "generate_presigned_url env key expiration =
     (case (s3_client env, bucket_name env) of
        (Some client, Some bucket) \<Rightarrow>
          if bucket = [] \<or> key = [] then ''N/A''
          else (case client bucket key expiration of
                  Inr url \<Rightarrow> url
                | Inl e \<Rightarrow> ''N/A'')
      | _ \<Rightarrow> ''N/A'')"

section \<open>Context assembly (\<open>get_docs\<close>)\<close>

text \<open>
  A Python dictionary keeps its keys in insertion order: it is an association list
  with distinct keys, \<open>d[k] = v\<close> is \<open>AList.update k v d\<close> and \<open>del d[k]\<close> is
  \<open>AList.delete k d\<close>.
\<close>

record citation_meta =
  meta_source :: string
  meta_document_id :: string
  meta_page :: page_value
  meta_s3_key :: "string option"
  meta_url :: string

type_synonym doc_groups = "(string \<times> document list) list"
type_synonym doc_metadata = "(string \<times> citation_meta) list"

definition doc_page_id :: "document \<Rightarrow> string" where
  "doc_page_id doc = get_document_id doc @ ''_'' @ str_page (get_page_number doc)"

text \<open>The pair that identifies a document page.\<close>

definition doc_page :: "document \<Rightarrow> string \<times> page_value" where
  "doc_page doc = (get_document_id doc, get_page_number doc)"

text \<open>\<open>doc_groups[doc_page_id].append(doc)\<close> on a \<open>defaultdict(list)\<close>.\<close>

definition groups_append :: "string \<Rightarrow> document \<Rightarrow> doc_groups \<Rightarrow> doc_groups" where
  "groups_append k doc groups =
     AList.update k ((case map_of groups k of None \<Rightarrow> [] | Some chunks \<Rightarrow> chunks) @ [doc]) groups"

fun group_loop :: "doc_groups \<Rightarrow> document list \<Rightarrow> doc_groups" where
  "group_loop groups [] = groups"
| "group_loop groups (doc # docs) = group_loop (groups_append (doc_page_id doc) doc groups) docs"

text \<open>
  What the grouping is meant to compute: one group per key, in the order in which the keys
  first occur, each holding the documents of its key in their order.
\<close>

definition grouped :: "document list \<Rightarrow> doc_groups" where
  "grouped docs =
     map (\<lambda>k. (k, filter (\<lambda>d. doc_page_id d = k) docs))
       (first_occurrences (map doc_page_id docs))"

text \<open>The key string of a document page.\<close>

definition page_key :: "string \<times> page_value \<Rightarrow> string" where
  "page_key p = fst p @ ''_'' @ str_page (snd p)"

definition combined_content :: "document list \<Rightarrow> string" where
  "combined_content chunks =
     join ''\<newline>\<newline>---\<newline>\<newline>'' (map page_content chunks)"

definition source_url_of :: "s3_env \<Rightarrow> document \<Rightarrow> string" where
  "source_url_of env first_chunk =
     (case s3_key first_chunk of
        Some key \<Rightarrow> if key \<noteq> [] then generate_presigned_url env key 3600 else ''N/A''
      | None \<Rightarrow> ''N/A'')"

definition citation_key_of :: "string \<Rightarrow> page_value \<Rightarrow> string" where
  "citation_key_of doc_id page = doc_id @ '', Page '' @ str_page page"

definition doc_text_of :: "s3_env \<Rightarrow> nat \<Rightarrow> document \<Rightarrow> document list \<Rightarrow> string" where
  "doc_text_of env doc_number first_chunk chunks =
     ''=== DOCUMENT '' @ str_nat doc_number @ '' ===\<newline>'' @
     ''Source: '' @ get_source first_chunk @ ''\<newline>'' @
     ''Document ID: '' @ get_document_id first_chunk @ ''\<newline>'' @
     ''Page: '' @ str_page (get_page_number first_chunk) @ ''\<newline>'' @
     ''Date: '' @ get_publication_date first_chunk @ ''\<newline>'' @
     ''Link: '' @ source_url_of env first_chunk @ ''\<newline>\<newline>'' @
     combined_content chunks @ ''\<newline>'' @
     ''=== END DOCUMENT '' @ str_nat doc_number @ '' ===''"

definition meta_of :: "s3_env \<Rightarrow> document \<Rightarrow> citation_meta" where
  "meta_of env first_chunk =
     \<lparr>meta_source = get_source first_chunk,
      meta_document_id = get_document_id first_chunk,
      meta_page = get_page_number first_chunk,
      meta_s3_key = s3_key first_chunk,
      meta_url = source_url_of env first_chunk\<rparr>"

text \<open>
  The loop over \<open>doc_groups.items()\<close>; its state is \<open>doc_number\<close>, \<open>doc_data\<close> and
  \<open>doc_metadata\<close>. \<open>chunks[0]\<close> raises \<open>IndexError\<close> on an empty list.
\<close>

fun format_loop ::
  "s3_env \<Rightarrow> doc_groups \<Rightarrow> nat \<Rightarrow> string list \<Rightarrow> doc_metadata
     \<Rightarrow> error + (string list \<times> doc_metadata)" where
  "format_loop env [] doc_number doc_data md = Inr (doc_data, md)"
| "format_loop env ((doc_page_key, chunks) # groups) doc_number doc_data md =
     (case chunks of
        [] \<Rightarrow> Inl IndexError
      | first_chunk # _ \<Rightarrow>
          let citation_key = citation_key_of (get_document_id first_chunk) (get_page_number first_chunk);
              md' = AList.update citation_key (meta_of env first_chunk) md;
              doc_text = doc_text_of env doc_number first_chunk chunks
          in format_loop env groups (doc_number + 1) (doc_data @ [doc_text]) md')"

text \<open>
  \<open>get_docs\<close> from the retrieved \<open>docs\<close> on: the context and the \<open>doc_metadata\<close> it
  leaves for \<open>append_sources\<close> (cleared at the start of every call).
\<close>

definition get_docs :: "s3_env \<Rightarrow> document list \<Rightarrow> error + (string \<times> doc_metadata)" where
  "get_docs env docs =
     (case format_loop env (group_loop [] docs) 1 [] [] of
        Inl e \<Rightarrow> Inl e
      | Inr (doc_data, md) \<Rightarrow> Inr (join ''\<newline>\<newline>'' doc_data, md))"

section \<open>Citation extraction (\<open>append_sources\<close>)\<close>

text \<open>
  The pattern \<open>\(([A-Z0-9\-_]+),\s*Page\s+([^\)]+)\)\<close>. \<open>match_citation s\<close> is the
  match of the pattern at the start of \<open>s\<close>, as the backtracking matcher of \<open>re\<close>
  finds it: the two groups and the text after the match. Each greedy repetition takes
  its longest run; only \<open>\s+\<close> can give a character back, its last one to
  \<open>[^\)]+\<close>, when the closing parenthesis follows the white space at once.
\<close>

definition is_id_char :: "char \<Rightarrow> bool" where
  "is_id_char c =
     (let n = of_char c :: nat
      in (65 \<le> n \<and> n \<le> 90) \<or> (48 \<le> n \<and> n \<le> 57) \<or> c = CHR ''-'' \<or> c = CHR ''_'')"

definition not_close :: "char \<Rightarrow> bool" where
  "not_close c = (c \<noteq> CHR '')'')"

definition match_citation :: "string \<Rightarrow> ((string \<times> string) \<times> string) option" where
  "match_citation s =
     (case s of
        [] \<Rightarrow> None
      | c # r \<Rightarrow>
          if c \<noteq> CHR ''(''  then None
          else
            let doc_id = takeWhile is_id_char r;
                r1 = dropWhile is_id_char r
            in if doc_id = [] then None
               else (case r1 of
                  [] \<Rightarrow> None
                | c1 # r2 \<Rightarrow>
                    if c1 \<noteq> CHR '','' then None
                    else
                      let r3 = dropWhile is_space r2
                      in if take 4 r3 \<noteq> ''Page'' then None
                         else
                           let r4 = drop 4 r3;
                               ws = takeWhile is_space r4;
                               r5 = dropWhile is_space r4;
                               page = takeWhile not_close r5;
                               r6 = dropWhile not_close r5
                           in if ws = [] then None
                              else (case r6 of
                                 [] \<Rightarrow> None
                               | c6 # r7 \<Rightarrow>
                                   if page \<noteq> [] then Some ((doc_id, page), r7)
                                   else if length ws \<ge> 2 then Some ((doc_id, [last ws]), r7)
                                   else None)))"

text \<open>
  \<open>re.findall\<close>: the matches from left to right, not overlapping; the search goes on
  after a match, and one character further where nothing matches.
\<close>

lemma match_citation_shorter:
  "match_citation s = Some (groups, rest) \<Longrightarrow> length rest < length s"
proof -
  have drop_le: "length (dropWhile P xs) \<le> length xs" for P :: "char \<Rightarrow> bool" and xs
    by (rule length_dropWhile_le)
  have tail: "length ys < length xs" if "dropWhile P xs = y # ys"
    for P :: "char \<Rightarrow> bool" and xs y ys
    using drop_le [of P xs] that by simp
  assume m: "match_citation s = Some (groups, rest)"
  then obtain c r c1 r2 c6 where s: "s = c # r"
    and r1: "dropWhile is_id_char r = c1 # r2"
    and r6: "dropWhile not_close (dropWhile is_space (drop 4 (dropWhile is_space r2))) = c6 # rest"
    by (auto simp: match_citation_def Let_def split: list.splits if_splits)
  have "length rest < length (dropWhile is_space (drop 4 (dropWhile is_space r2)))"
    using r6 by (rule tail)
  also have "\<dots> \<le> length (drop 4 (dropWhile is_space r2))"
    by (rule drop_le)
  also have "\<dots> \<le> length (dropWhile is_space r2)"
    by simp
  also have "\<dots> \<le> length r2"
    by (rule drop_le)
  also have "\<dots> < length r"
    using r1 by (rule tail)
  finally show ?thesis using s by simp
qed

function findall :: "string \<Rightarrow> (string \<times> string) list" where
  "findall [] = []"
| "findall (c # cs) =
     (case match_citation (c # cs) of
        None \<Rightarrow> findall cs
      | Some (groups, rest) \<Rightarrow> groups # findall rest)"
  by pat_completeness auto
termination findall
  by (relation "measure length") (auto dest: match_citation_shorter)

text \<open>The loop that keeps the first occurrence of every citation key.\<close>

fun unique_loop :: "string set \<Rightarrow> string list \<Rightarrow> (string \<times> string) list \<Rightarrow> string list" where
  "unique_loop seen unique_citations [] = unique_citations"
| "unique_loop seen unique_citations ((doc_id, page) # citations) =
     (let citation_key = doc_id @ '', Page '' @ page
      in if citation_key \<notin> seen
         then unique_loop (insert citation_key seen) (unique_citations @ [citation_key]) citations
         else unique_loop seen unique_citations citations)"

definition source_line :: "citation_meta \<Rightarrow> string" where
  "source_line meta =
     (let page_text = (if meta_page meta \<noteq> PageStr ''N/A''
                       then '', Page '' @ str_page (meta_page meta) else [])
      in ''- **'' @ meta_document_id meta @ page_text @ '' - '' @ meta_source meta @ ''**'' @
         (if meta_url meta \<noteq> [] \<and> meta_url meta \<noteq> ''N/A''
          then '' - [View Document]('' @ meta_url meta @ '')'' else []) @
         ''\<newline>'')"

text \<open>
  The loop over \<open>unique_citations\<close>; its state is \<open>sources_text\<close> and
  \<open>citations_metadata\<close>.
\<close>

fun sources_loop ::
  "doc_metadata \<Rightarrow> string list \<Rightarrow> string \<Rightarrow> (string \<times> string) list
     \<Rightarrow> string \<times> (string \<times> string) list" where
  "sources_loop md [] sources_text citations_metadata = (sources_text, citations_metadata)"
| "sources_loop md (citation_key # keys) sources_text citations_metadata =
     (case map_of md citation_key of
        Some meta \<Rightarrow>
          sources_loop md keys (sources_text @ source_line meta)
            (AList.update citation_key (meta_url meta) citations_metadata)
      | None \<Rightarrow> sources_loop md keys sources_text citations_metadata)"

definition sources_header :: string where
  "sources_header = ''\<newline>\<newline>---\<newline>\<newline>**Sources:**\<newline>\<newline>''"

text \<open>
  \<open>append_sources\<close> returns the answer and leaves \<open>citations_metadata\<close>, which it
  clears first, for the caller: the model returns both.
\<close>

definition append_sources :: "doc_metadata \<Rightarrow> string \<Rightarrow> string \<times> (string \<times> string) list" where
  "append_sources md llm_answer =
     (let citations = findall llm_answer
      in if citations = [] then (llm_answer, [])
         else
           let unique_citations = unique_loop {} [] citations;
               (sources_text, citations_metadata) =
                  sources_loop md unique_citations sources_header []
           in (llm_answer @ sources_text, citations_metadata))"

text \<open>
  For the statements about \<open>append_sources\<close>: the citation key of a match; the line and
  the \<open>citations_metadata\<close> entry that a key contributes (none when the key is not in
  \<open>doc_metadata\<close>); and the text of a marker with identifier \<open>doc_id\<close>, page text
  \<open>page\<close> and white space \<open>w1\<close> before and \<open>w2\<close> after the word \<open>Page\<close>, with the
  conditions the pattern puts on these parts.
\<close>

definition citation_key :: "string \<times> string \<Rightarrow> string" where
  "citation_key c = fst c @ '', Page '' @ snd c"

definition listed_line :: "doc_metadata \<Rightarrow> string \<Rightarrow> string" where
  "listed_line md k = (case map_of md k of Some meta \<Rightarrow> source_line meta | None \<Rightarrow> [])"

definition listed_entry :: "doc_metadata \<Rightarrow> string \<Rightarrow> (string \<times> string) option" where
  "listed_entry md k = map_option (\<lambda>meta. (k, meta_url meta)) (map_of md k)"

definition marker :: "string \<Rightarrow> string \<Rightarrow> string \<Rightarrow> string \<Rightarrow> string" where
  "marker doc_id w1 w2 page = ''('' @ doc_id @ '','' @ w1 @ ''Page'' @ w2 @ page @ '')''"

definition marker_parts :: "string \<Rightarrow> string \<Rightarrow> string \<Rightarrow> string \<Rightarrow> bool" where
  "marker_parts doc_id w1 w2 page =
     (doc_id \<noteq> [] \<and> list_all is_id_char doc_id \<and> list_all is_space w1
      \<and> w2 \<noteq> [] \<and> list_all is_space w2 \<and> page \<noteq> [] \<and> CHR '')'' \<notin> set page)"

section \<open>Session store (\<open>get_session_history\<close>)\<close>

text \<open>
  \<open>message_store\<close> maps a session id to the messages of its \<open>ChatMessageHistory\<close>; a
  message is a role and a text.
\<close>

type_synonym message = "string \<times> string"
type_synonym message_store = "(string \<times> message list) list"

definition MAX_SESSIONS :: nat where
  "MAX_SESSIONS = 50"

text \<open>
  The \<open>while\<close> loop: \<open>next(iter(message_store))\<close> is the first key, and raises
  \<open>StopIteration\<close> on an empty store.
\<close>

function evict_loop :: "string \<Rightarrow> message_store \<Rightarrow> nat \<Rightarrow> error + (message_store \<times> nat)" where
  "evict_loop session_id store sessions_deleted =
     (if session_id \<notin> fst ` set store \<and> length store \<ge> MAX_SESSIONS
      then (case store of
              [] \<Rightarrow> Inl StopIteration
            | (oldest_session, h) # rest \<Rightarrow>
                evict_loop session_id (AList.delete oldest_session store) (sessions_deleted + 1))
      else Inr (store, sessions_deleted))"
  by pat_completeness auto
termination
  by (relation "measure (\<lambda>(session_id, store, sessions_deleted). length store)")
     (auto simp: le_imp_less_Suc AList.length_delete_le)

declare evict_loop.simps [simp del]

text \<open>\<open>messages[-4:]\<close>.\<close>

definition last4 :: "'a list \<Rightarrow> 'a list" where
  "last4 messages = drop (length messages - 4) messages"

text \<open>
  \<open>get_session_history\<close> returns the session's history; the model returns the store it
  leaves, the messages of that history and \<open>sessions_deleted\<close>.
  \<open>message_store[session_id]\<close> raises \<open>KeyError\<close> on an absent key.
\<close>

definition get_session_history ::
  "message_store \<Rightarrow> string \<Rightarrow> error + (message_store \<times> message list \<times> nat)" where
  "get_session_history store session_id =
     (case evict_loop session_id store 0 of
        Inl e \<Rightarrow> Inl e
      | Inr (store1, sessions_deleted) \<Rightarrow>
          let store2 = (if session_id \<notin> fst ` set store1
                        then AList.update session_id [] store1 else store1)
          in (case map_of store2 session_id of
                None \<Rightarrow> Inl KeyError
              | Some messages \<Rightarrow>
                  let history = last4 messages
                  in Inr (AList.update session_id history store2, history, sessions_deleted)))"

text \<open>
  \<open>history.add_message(m)\<close> of LangChain's in-memory \<open>ChatMessageHistory\<close>, which
  \<open>RunnableWithMessageHistory\<close> calls on the object \<open>get_session_history\<close> returned:
  \<open>self.messages.append(m)\<close>, on the history the store holds for the session.
\<close>

definition add_message :: "message_store \<Rightarrow> string \<Rightarrow> message \<Rightarrow> message_store" where
  "add_message store session_id m =
     (case map_of store session_id of
        Some h \<Rightarrow> AList.update session_id (h @ [m]) store
      | None \<Rightarrow> store)"

text \<open>
  One invocation of \<open>RunnableWithMessageHistory\<close> as far as the store sees it: it
  fetches the history of the session, runs the chain, and appends the user's message
  and the answer to the history it fetched. \<open>exchanges\<close> runs several in a row.
\<close>

definition exchange :: "message_store \<Rightarrow> string \<Rightarrow> string \<times> string \<Rightarrow> error + message_store" where
  "exchange store session_id turn =
     (case get_session_history store session_id of
        Inl e \<Rightarrow> Inl e
      | Inr (store', history, sessions_deleted) \<Rightarrow>
          Inr (add_message (add_message store' session_id (''human'', fst turn))
                 session_id (''ai'', snd turn)))"

fun exchanges :: "message_store \<Rightarrow> string \<Rightarrow> (string \<times> string) list \<Rightarrow> error + message_store" where
  "exchanges store session_id [] = Inr store"
| "exchanges store session_id (turn # turns) =
     (case exchange store session_id turn of
        Inl e \<Rightarrow> Inl e
      | Inr store' \<Rightarrow> exchanges store' session_id turns)"

text \<open>
  Session ids used one after the other, from a given store; the evictions are counted.
  \<open>empty_sessions ids\<close> is the store that holds an empty history for each of \<open>ids\<close>,
  in that order.
\<close>

fun use_sessions :: "message_store \<Rightarrow> nat \<Rightarrow> string list \<Rightarrow> error + (message_store \<times> nat)" where
  "use_sessions store evictions [] = Inr (store, evictions)"
| "use_sessions store evictions (session_id # ids) =
     (case get_session_history store session_id of
        Inl e \<Rightarrow> Inl e
      | Inr (store', history, sessions_deleted) \<Rightarrow>
          use_sessions store' (evictions + sessions_deleted) ids)"

definition empty_sessions :: "string list \<Rightarrow> message_store" where
  "empty_sessions ids = map (\<lambda>k. (k, [])) ids"

section \<open>Example inputs\<close>

text \<open>Concrete inputs, at which the theorems below are evaluated.\<close>

definition ner_none :: ner where
  "ner_none query = []"

definition ner_example :: ner where
  "ner_example query = [(''Paris'', ''GPE''), (''Paris '', ''GPE'')]"

definition doc_a :: document where
  "doc_a = \<lparr>page_content = ''alpha'', document_id = Some ''DOC-001'', page_number = Some 3,
            s3_key = Some ''files/DOC-001.pdf'', source = Some ''DOJ'',
            publication_date = None\<rparr>"

definition doc_b :: document where
  "doc_b = \<lparr>page_content = ''beta'', document_id = Some ''DOC-002'', page_number = Some 1,
            s3_key = None, source = None, publication_date = Some ''2019-08-10''\<rparr>"

definition doc_c :: document where
  "doc_c = \<lparr>page_content = ''gamma'', document_id = Some ''DOC-001'', page_number = Some 3,
            s3_key = Some ''files/DOC-001.pdf'', source = Some ''DOJ'',
            publication_date = None\<rparr>"

text \<open>A store that honours \<open>k\<close>: one passage matches the entity filter, three match at all.\<close>

definition example_store :: vector_store where
  "example_store query k flt =
     take (nat k) (case flt of Some es \<Rightarrow> [doc_a] | None \<Rightarrow> [doc_b, doc_a, doc_c])"

text \<open>An S3 client that always raises, and one that always answers.\<close>

definition failing_client :: s3_api where
  "failing_client bucket key expiration = Inl ClientError"

definition example_client :: s3_api where
  "example_client bucket key expiration = Inr (''https://'' @ bucket @ ''/'' @ key)"

definition env_failing :: s3_env where
  "env_failing = \<lparr>s3_client = Some failing_client, bucket_name = Some ''bucket''\<rparr>"

definition env_ok :: s3_env where
  "env_ok = \<lparr>s3_client = Some example_client, bucket_name = Some ''bucket''\<rparr>"

text \<open>The \<open>doc_metadata\<close> that \<open>get_docs\<close> leaves for the three passages above.\<close>

definition example_metadata :: doc_metadata where
  "example_metadata =
     [(''DOC-001, Page 3'',
        \<lparr>meta_source = ''DOJ'', meta_document_id = ''DOC-001'',
           meta_page = PageNum 3, meta_s3_key = Some ''files/DOC-001.pdf'',
           meta_url = ''https://bucket/files/DOC-001.pdf''\<rparr>),
       (''DOC-002, Page 1'',
        \<lparr>meta_source = ''Unknown'', meta_document_id = ''DOC-002'',
           meta_page = PageNum 1, meta_s3_key = None,
           meta_url = ''N/A''\<rparr>)]"

text \<open>The session ids \<open>s0\<close>, \<open>s1\<close>, ...\<close>

definition session_ids :: "nat \<Rightarrow> string list" where
  "session_ids n = map (\<lambda>i. ''s'' @ str_nat i) [0..<n]"

text \<open>A scorer: the length of the passage.\<close>

definition example_predict :: "(string \<times> string) list \<Rightarrow> int list" where
  "example_predict pairs = map (\<lambda>p. int (length (snd p))) pairs"

section \<open>Strings: properties\<close>

lemmas char_eval = char_of_def bit_Suc_0_iff

lemma of_char_lower_char:
  "of_char (lower_char c) =
     (let n = of_char c :: nat
      in if (65 \<le> n \<and> n \<le> 90) \<or> (192 \<le> n \<and> n \<le> 222 \<and> n \<noteq> 215) then n + 32 else n)"
  by (auto simp: lower_char_def Let_def)

lemma lower_char_idem: "lower_char (lower_char c) = lower_char c"
  unfolding lower_char_def [of "lower_char c"] of_char_lower_char
  by (auto simp: Let_def)

lemma lower_idem: "lower (lower s) = lower s"
  by (simp add: lower_def lower_char_idem)

lemma length_lower: "length (lower s) = length s"
  by (simp add: lower_def)

lemma of_char_digit_char: "d < 10 \<Longrightarrow> of_char (digit_char d) = 48 + d"
  by (simp add: digit_char_def)

lemma nat_of_digits_str_nat: "nat_of_digits (str_nat n) = n"
proof (induction n rule: str_nat.induct)
  case (1 n)
  show ?case
  proof (cases "n < 10")
    case True
    then show ?thesis by (subst str_nat.simps) (simp add: nat_of_digits_def of_char_digit_char)
  next
    case False
    with 1 have "nat_of_digits (str_nat (n div 10)) = n div 10" by simp
    with False show ?thesis
      by (subst str_nat.simps) (simp add: nat_of_digits_def of_char_digit_char)
  qed
qed

lemma str_nat_inj: "str_nat n = str_nat m \<Longrightarrow> n = m"
  by (metis nat_of_digits_str_nat)

lemma str_nat_digits: "c \<in> set (str_nat n) \<Longrightarrow> is_digit c"
proof (induction n rule: str_nat.induct)
  case (1 n)
  show ?case
  proof (cases "n < 10")
    case True
    from 1(2) have "c \<in> set [digit_char n]"
      using True by (subst (asm) str_nat.simps) simp
    with True show ?thesis by (simp add: is_digit_def of_char_digit_char)
  next
    case False
    from 1(2) have "c \<in> set (str_nat (n div 10) @ [digit_char (n mod 10)])"
      using False by (subst (asm) str_nat.simps) simp
    with 1(1) False show ?thesis
      by (auto simp: is_digit_def of_char_digit_char)
  qed
qed

lemma str_nat_nonempty: "str_nat n \<noteq> []"
  by (subst str_nat.simps) simp

lemma str_int_chars: "c \<in> set (str_int i) \<Longrightarrow> is_digit c \<or> c = CHR ''-''"
  by (auto simp: str_int_def dest: str_nat_digits split: if_splits)

lemma str_int_inj: "str_int i = str_int j \<Longrightarrow> i = j"
proof -
  have neg: "CHR ''-'' # str_nat a \<noteq> str_nat b" for a b
  proof
    assume "CHR ''-'' # str_nat a = str_nat b"
    then have "CHR ''-'' \<in> set (str_nat b)" by (metis list.set_intros(1))
    then have "is_digit CHR ''-''" by (rule str_nat_digits)
    then show False by (simp add: is_digit_def)
  qed
  assume eq: "str_int i = str_int j"
  show ?thesis
  proof (cases "i < 0")
    case i: True
    show ?thesis
    proof (cases "j < 0")
      case True
      with i eq have "str_nat (nat (- i)) = str_nat (nat (- j))" by (simp add: str_int_def)
      then have "nat (- i) = nat (- j)" by (rule str_nat_inj)
      with i True show ?thesis by simp
    next
      case False
      with i eq neg [of "nat (- i)" "nat j"] show ?thesis by (simp add: str_int_def)
    qed
  next
    case i: False
    show ?thesis
    proof (cases "j < 0")
      case True
      with i eq neg [of "nat (- j)" "nat i"] show ?thesis by (simp add: str_int_def)
    next
      case False
      with i eq have "str_nat (nat i) = str_nat (nat j)" by (simp add: str_int_def)
      then have "nat i = nat j" by (rule str_nat_inj)
      with i False show ?thesis by simp
    qed
  qed
qed

lemma str_page_get_inj:
  "str_page (get_page_number d) = str_page (get_page_number d') \<Longrightarrow>
     get_page_number d = get_page_number d'"
proof -
  have na: "str_int n \<noteq> ''N/A''" for n
  proof
    assume "str_int n = ''N/A''"
    then have "CHR ''N'' \<in> set (str_int n)" by simp
    then have "is_digit CHR ''N'' \<or> CHR ''N'' = CHR ''-''" by (rule str_int_chars)
    then show False by (simp add: is_digit_def)
  qed
  assume "str_page (get_page_number d) = str_page (get_page_number d')"
  then show ?thesis
    using na str_int_inj
    by (cases "page_number d"; cases "page_number d'") (auto simp: get_page_number_def)
qed

lemma str_page_get_no_underscore: "CHR ''_'' \<notin> set (str_page (get_page_number d))"
proof (cases "page_number d")
  case None
  then show ?thesis by (simp add: get_page_number_def)
next
  case (Some n)
  have "CHR ''_'' \<notin> set (str_int n)"
  proof
    assume "CHR ''_'' \<in> set (str_int n)"
    then have "is_digit CHR ''_'' \<or> CHR ''_'' = CHR ''-''" by (rule str_int_chars)
    then show False by (simp add: is_digit_def)
  qed
  with Some show ?thesis by (simp add: get_page_number_def)
qed

lemma append_sep_inj:
  "c \<notin> set s \<Longrightarrow> c \<notin> set s' \<Longrightarrow> a @ c # s = a' @ c # s' \<Longrightarrow> a = a' \<and> s = s'"
proof (induction a arbitrary: a')
  case Nil
  then show ?case by (cases a') auto
next
  case (Cons x a)
  then show ?case by (cases a') auto
qed

lemma doc_page_id_eq_iff: "doc_page_id d = doc_page_id d' \<longleftrightarrow> doc_page d = doc_page d'"
proof
  assume "doc_page_id d = doc_page_id d'"
  then have "get_document_id d @ CHR ''_'' # str_page (get_page_number d)
       = get_document_id d' @ CHR ''_'' # str_page (get_page_number d')"
    by (simp add: doc_page_id_def)
  then have "get_document_id d = get_document_id d'
      \<and> str_page (get_page_number d) = str_page (get_page_number d')"
    by (rule append_sep_inj [OF str_page_get_no_underscore str_page_get_no_underscore])
  then have "get_document_id d = get_document_id d' \<and> get_page_number d = get_page_number d'"
    using str_page_get_inj [of d d'] by blast
  then show "doc_page d = doc_page d'"
    by (simp add: doc_page_def)
next
  assume "doc_page d = doc_page d'"
  then show "doc_page_id d = doc_page_id d'" by (simp add: doc_page_def doc_page_id_def)
qed

section \<open>Entity extraction: properties\<close>

lemma extract_loop_eq:
  "extract_loop entities ents =
     entities @ map (\<lambda>e. lower (strip (fst e)))
       (filter (\<lambda>e. snd e \<in> ALLOWED_LABELS \<and> length (strip (fst e)) > 2) ents)"
  by (induction entities ents rule: extract_loop.induct) auto

text \<open>
  Claim C9, as the code has it. The extractor returns a list, not a set: in the order
  of the recogniser's output and with repetitions, the trimmed and lowercased text of
  every entity whose label is PERSON, ORG or GPE and whose trimmed text is longer than
  two characters. Every string returned is lowercase and longer than two characters,
  and a query in which the recogniser finds no entity (the empty query) yields the
  empty list.
\<close>

theorem extract_entities_list:
  "extract_entities_from_query nlp query =
     map (\<lambda>e. lower (strip (fst e)))
       (filter (\<lambda>e. snd e \<in> {''PERSON'', ''ORG'', ''GPE''} \<and> length (strip (fst e)) > 2)
          (nlp query))
   \<and> (\<forall>e \<in> set (extract_entities_from_query nlp query). lower e = e \<and> length e > 2)
   \<and> (nlp query = [] \<longrightarrow> extract_entities_from_query nlp query = [])"
  by (auto simp: extract_entities_from_query_def extract_loop_eq ALLOWED_LABELS_def
        lower_idem length_lower)

theorem extract_entities_list_witness:
  "''paris'' \<in> set (extract_entities_from_query ner_example ''Paris or Paris '')
   \<and> lower ''paris'' = ''paris'' \<and> length ''paris'' > 2
   \<and> ner_none [] = [] \<and> extract_entities_from_query ner_none [] = []"
  using extract_entities_list [of ner_example "''Paris or Paris ''"]
    extract_entities_list [of ner_none "[]"]
  by (simp add: ner_example_def ner_none_def strip_def is_space_def lower_def lower_char_def
        char_eval)

text \<open>
  Claim C9 as stated fails: a place mentioned twice, which the recogniser labels GPE,
  is returned twice.
\<close>

theorem extract_entities_duplicates:
  "extract_entities_from_query ner_example ''Paris or Paris '' = [''paris'', ''paris'']
   \<and> \<not> distinct (extract_entities_from_query ner_example ''Paris or Paris '')"
  by (simp add: extract_entities_from_query_def ner_example_def ALLOWED_LABELS_def strip_def
        is_space_def lower_def lower_char_def char_eval)

section \<open>Candidate retrieval: properties\<close>

text \<open>
  Claim C8. When the query has no entity, the retriever makes exactly one search call,
  unfiltered and of size 16, and its results are the candidates handed to the reranker.
\<close>

theorem no_entities_single_search:
  "extract_entities_from_query nlp query = [] \<Longrightarrow>
     retrieve_candidates vector_db query (extract_entities_from_query nlp query) =
       ([\<lparr>call_query = query, call_k = 16, call_filter = None\<rparr>], vector_db query 16 None)
     \<and> entity_aware_retrieval nlp vector_db predict query =
       ([\<lparr>call_query = query, call_k = 16, call_filter = None\<rparr>],
        map fst (rerank predict query (vector_db query 16 None)))"
  by (simp add: retrieve_candidates_def entity_aware_retrieval_def)

theorem no_entities_single_search_witness:
  "extract_entities_from_query ner_none ''hello'' = []
   \<and> retrieve_candidates example_store ''hello'' (extract_entities_from_query ner_none ''hello'') =
       ([\<lparr>call_query = ''hello'', call_k = 16, call_filter = None\<rparr>], [doc_b, doc_a, doc_c])"
  using no_entities_single_search [of ner_none "''hello''" example_store example_predict]
  by (simp add: extract_entities_from_query_def ner_none_def example_store_def)

text \<open>
  Claim C2. When the query has entities and the store returns at most \<open>k\<close> passages
  for a search of size \<open>k\<close>, the retriever makes two calls: an entity-filtered search
  with \<open>k = 8\<close>, then an unfiltered search with \<open>k = 8 + (8 - n)\<close>, where \<open>n\<close> is the
  number of entity-filtered passages returned. The candidates handed to the reranker
  are the entity-filtered passages followed by the general ones, as the store returned
  them (nothing removed, so a passage in both results stands twice), at most 16 in all.
\<close>

theorem entity_search_then_backfill:
  assumes "query_entities = extract_entities_from_query nlp query"
    and "query_entities \<noteq> []"
    and "\<forall>q k flt. int (length (vector_db q k flt)) \<le> max 0 k"
  shows "(let entity_matched_docs = vector_db query 8 (Some (map lower query_entities));
              num_to_total = 8 + (8 - int (length entity_matched_docs));
              normal_docs = vector_db query num_to_total None;
              calls = [\<lparr>call_query = query, call_k = 8, call_filter = Some (map lower query_entities)\<rparr>,
                       \<lparr>call_query = query, call_k = num_to_total, call_filter = None\<rparr>]
          in retrieve_candidates vector_db query query_entities =
               (calls, entity_matched_docs @ normal_docs)
           \<and> entity_aware_retrieval nlp vector_db predict query =
               (calls, map fst (rerank predict query (entity_matched_docs @ normal_docs)))
           \<and> length entity_matched_docs \<le> 8
           \<and> length (entity_matched_docs @ normal_docs) \<le> 16
           \<and> take (length entity_matched_docs) (entity_matched_docs @ normal_docs)
                = entity_matched_docs)"
proof -
  let ?e = "vector_db query 8 (Some (map lower query_entities))"
  let ?k = "8 + (8 - int (length ?e))"
  let ?g = "vector_db query ?k None"
  have e: "int (length ?e) \<le> 8"
    using assms(3) [rule_format, of query 8 "Some (map lower query_entities)"] by simp
  have g: "int (length ?g) \<le> max 0 ?k"
    using assms(3) [rule_format, of query ?k None] .
  have "int (length ?e) + int (length ?g) \<le> 16"
    using e g by simp
  then have total: "length (?e @ ?g) \<le> 16" by simp
  have cand: "retrieve_candidates vector_db query query_entities =
        ([\<lparr>call_query = query, call_k = 8, call_filter = Some (map lower query_entities)\<rparr>,
          \<lparr>call_query = query, call_k = ?k, call_filter = None\<rparr>], ?e @ ?g)"
    using assms(2) by (simp add: retrieve_candidates_def Let_def)
  have "entity_aware_retrieval nlp vector_db predict query =
        ([\<lparr>call_query = query, call_k = 8, call_filter = Some (map lower query_entities)\<rparr>,
          \<lparr>call_query = query, call_k = ?k, call_filter = None\<rparr>],
         map fst (rerank predict query (?e @ ?g)))"
    using cand by (simp add: entity_aware_retrieval_def assms(1) [symmetric] Let_def)
  with cand total e show ?thesis by (simp add: Let_def)
qed

lemma example_store_honours_k: "int (length (example_store q k flt)) \<le> max 0 k"
  by (auto simp: example_store_def split: option.splits)

lemma ner_example_entities:
  "extract_entities_from_query ner_example q = [''paris'', ''paris'']"
  by (simp add: extract_entities_from_query_def ner_example_def ALLOWED_LABELS_def strip_def
        is_space_def lower_def lower_char_def char_eval)

theorem entity_search_then_backfill_witness:
  "[''paris'', ''paris''] = extract_entities_from_query ner_example ''Paris or Paris ''
   \<and> [''paris'', ''paris''] \<noteq> ([] :: string list)
   \<and> retrieve_candidates example_store ''Paris or Paris '' [''paris'', ''paris''] =
       ([\<lparr>call_query = ''Paris or Paris '', call_k = 8, call_filter = Some [''paris'', ''paris'']\<rparr>,
         \<lparr>call_query = ''Paris or Paris '', call_k = 15, call_filter = None\<rparr>],
        [doc_a, doc_b, doc_a, doc_c])"
proof -
  have h: "\<forall>q k flt. int (length (example_store q k flt)) \<le> max 0 k"
    by (simp add: example_store_honours_k)
  show ?thesis
    using entity_search_then_backfill [of "[''paris'', ''paris'']" ner_example "''Paris or Paris ''"
        example_store example_predict, OF ner_example_entities [symmetric] _ h]
    by (simp add: ner_example_entities lower_def lower_char_def Let_def example_store_def)
qed

section \<open>Reranking: properties\<close>

lemma sorted_reverse_descending:
  "sorted_wrt (\<lambda>a b. key a \<ge> key b) (sorted_reverse key xs)"
proof -
  have "sorted (map key (sort_key key (rev xs)))" by (rule sorted_sort_key)
  then have "sorted_wrt (\<lambda>a b. key a \<le> key b) (sort_key key (rev xs))"
    by (simp add: sorted_map)
  then show ?thesis
    by (simp add: sorted_reverse_def sorted_wrt_rev)
qed

lemma sorted_reverse_stable:
  "filter (\<lambda>y. key y = k) (sorted_reverse key xs) = filter (\<lambda>y. key y = k) xs"
  by (simp add: sorted_reverse_def rev_filter [symmetric] sort_key_stable)

lemma set_sorted_reverse: "set (sorted_reverse key xs) = set xs"
  by (simp add: sorted_reverse_def)

lemma length_sorted_reverse: "length (sorted_reverse key xs) = length xs"
  by (simp add: sorted_reverse_def)

text \<open>
  Claim C3. When the cross-encoder returns one score per candidate, the reranked
  sequence is in descending order of score; the candidates of any one score stand in it
  in their input order (they are a prefix of the input candidates of that score); no
  candidate left out scores higher than one kept; its length is the smaller of 8 and the
  number of candidates; and no candidates give the empty sequence.
\<close>

theorem rerank_sorted_stable_top8:
  assumes "length (predict (map (\<lambda>doc. (query, page_content doc)) candidates_docs))
             = length candidates_docs"
  shows "sorted_wrt (\<lambda>a b. snd a \<ge> snd b) (rerank predict query candidates_docs)
    \<and> (\<forall>k. prefix (filter (\<lambda>y. snd y = k) (rerank predict query candidates_docs))
              (filter (\<lambda>y. snd y = k)
                 (zip candidates_docs (predict (map (\<lambda>doc. (query, page_content doc)) candidates_docs)))))
    \<and> (\<forall>x \<in> set (zip candidates_docs (predict (map (\<lambda>doc. (query, page_content doc)) candidates_docs))).
         \<forall>y \<in> set (rerank predict query candidates_docs).
           x \<notin> set (rerank predict query candidates_docs) \<longrightarrow> snd x \<le> snd y)
    \<and> length (rerank predict query candidates_docs) = min 8 (length candidates_docs)
    \<and> rerank predict query [] = []"
proof -
  let ?z = "zip candidates_docs (predict (map (\<lambda>doc. (query, page_content doc)) candidates_docs))"
  let ?s = "sorted_reverse snd ?z"
  have r: "rerank predict query candidates_docs = take 8 ?s"
    by (simp add: rerank_def Let_def)
  have desc: "sorted_wrt (\<lambda>a b. snd a \<ge> snd b) ?s" by (rule sorted_reverse_descending)
  have 1: "sorted_wrt (\<lambda>a b. snd a \<ge> snd b) (take 8 ?s)"
    using desc by (rule sorted_wrt_take)
  have 2: "prefix (filter (\<lambda>y. snd y = k) (take 8 ?s)) (filter (\<lambda>y. snd y = k) ?z)" for k
  proof -
    have "prefix (filter (\<lambda>y. snd y = k) (take 8 ?s)) (filter (\<lambda>y. snd y = k) ?s)"
      by (intro filter_mono_prefix take_is_prefix)
    then show ?thesis by (simp add: sorted_reverse_stable)
  qed
  have 3: "snd x \<le> snd y" if "x \<in> set ?z" "y \<in> set (take 8 ?s)" "x \<notin> set (take 8 ?s)" for x y
  proof -
    have "x \<in> set (take 8 ?s @ drop 8 ?s)" using that(1) by (simp add: set_sorted_reverse)
    then have "x \<in> set (drop 8 ?s)" using that(3) by (simp only: set_append) blast
    moreover have "sorted_wrt (\<lambda>a b. snd a \<ge> snd b) (take 8 ?s @ drop 8 ?s)"
      using desc by simp
    ultimately show ?thesis using that(2) unfolding sorted_wrt_append by blast
  qed
  have 4: "length (take 8 ?s) = min 8 (length candidates_docs)"
    using assms by (simp add: length_sorted_reverse)
  have 5: "rerank predict query [] = []"
    by (simp add: rerank_def sorted_reverse_def)
  show ?thesis unfolding r using 1 2 3 4 5 [unfolded r] by (auto simp: rerank_def)
qed

theorem rerank_sorted_stable_top8_witness:
  "length (example_predict (map (\<lambda>doc. (''q'', page_content doc)) [doc_b, doc_a, doc_c]))
     = length [doc_b, doc_a, doc_c]
   \<and> rerank example_predict ''q'' [doc_b, doc_a, doc_c] = [(doc_a, 5), (doc_c, 5), (doc_b, 4)]
   \<and> length (rerank example_predict ''q'' [doc_b, doc_a, doc_c]) = min 8 3"
  using rerank_sorted_stable_top8 [of example_predict "''q''" "[doc_b, doc_a, doc_c]"]
  by (simp add: rerank_def sorted_reverse_def example_predict_def doc_a_def doc_b_def doc_c_def)

section \<open>Context assembly: properties\<close>

lemma set_first_occurrences [simp]: "set (first_occurrences xs) = set xs"
  by (induction xs rule: first_occurrences.induct) auto

lemma distinct_first_occurrences [simp]: "distinct (first_occurrences xs)"
  by (induction xs rule: first_occurrences.induct) auto

lemma first_occurrences_snoc:
  "first_occurrences (xs @ [x]) =
     (if x \<in> set xs then first_occurrences xs else first_occurrences xs @ [x])"
  by (induction xs rule: first_occurrences.induct) auto

lemma length_first_occurrences: "length (first_occurrences xs) = card (set xs)"
  by (metis distinct_card distinct_first_occurrences set_first_occurrences)

lemma length_first_occurrences_le: "length (first_occurrences xs) \<le> length xs"
  by (simp add: length_first_occurrences card_length)

lemma first_occurrences_map:
  "inj_on g (set xs) \<Longrightarrow> first_occurrences (map g xs) = map g (first_occurrences xs)"
proof (induction xs rule: first_occurrences.induct)
  case 1
  then show ?case by simp
next
  case (2 x xs)
  have r: "removeAll (g x) (map g xs) = map g (removeAll x xs)"
    using 2(2) by (induction xs) (auto simp: inj_on_def)
  have "inj_on g (set (removeAll x xs))"
    using 2(2) by (auto simp: inj_on_def)
  with 2(1) r show ?case by simp
qed

lemma update_absent: "k \<notin> fst ` set al \<Longrightarrow> AList.update k v al = al @ [(k, v)]"
  by (induction al) auto

lemma update_tabulate:
  "distinct ks \<Longrightarrow> k \<in> set ks \<Longrightarrow>
     AList.update k v (map (\<lambda>k'. (k', f k')) ks) = map (\<lambda>k'. (k', if k' = k then v else f k')) ks"
  by (induction ks) (auto simp: update_absent image_iff)

lemma map_of_tabulate:
  "map_of (map (\<lambda>k'. (k', f k')) ks) k = (if k \<in> set ks then Some (f k) else None)"
  by (induction ks) auto

lemma groups_append_grouped:
  "groups_append (doc_page_id d) d (grouped pre) = grouped (pre @ [d])"
proof (cases "doc_page_id d \<in> set (map doc_page_id pre)")
  case True
  then have "groups_append (doc_page_id d) d (grouped pre) =
      map (\<lambda>k. (k, if k = doc_page_id d then filter (\<lambda>x. doc_page_id x = doc_page_id d) pre @ [d]
                     else filter (\<lambda>x. doc_page_id x = k) pre))
        (first_occurrences (map doc_page_id pre))"
    by (simp add: groups_append_def grouped_def map_of_tabulate update_tabulate)
  also have "\<dots> = grouped (pre @ [d])"
    using True by (auto simp: grouped_def first_occurrences_snoc)
  finally show ?thesis .
next
  case False
  then have "groups_append (doc_page_id d) d (grouped pre) = grouped pre @ [(doc_page_id d, [d])]"
    by (simp add: groups_append_def grouped_def map_of_tabulate update_absent image_iff)
  also have "\<dots> = grouped (pre @ [d])"
  proof -
    have "filter (\<lambda>x. doc_page_id x = doc_page_id d) pre = []"
      using False by (auto simp: filter_empty_conv image_iff)
    moreover have "filter (\<lambda>x. doc_page_id x = k) pre @ (if doc_page_id d = k then [d] else [])
        = filter (\<lambda>x. doc_page_id x = k) pre" if "k \<in> set (map doc_page_id pre)" for k
      using that False by auto
    ultimately show ?thesis
      using False by (auto simp: grouped_def first_occurrences_snoc cong: map_cong)
  qed
  finally show ?thesis .
qed

lemma group_loop_grouped: "group_loop (grouped pre) docs = grouped (pre @ docs)"
proof (induction docs arbitrary: pre)
  case Nil
  then show ?case by simp
next
  case (Cons d docs)
  then show ?case by (simp add: groups_append_grouped)
qed

lemma group_loop_eq: "group_loop [] docs = grouped docs"
  using group_loop_grouped [of "[]" docs] by (simp add: grouped_def)

lemma format_loop_eq:
  "\<forall>g \<in> set groups. snd g \<noteq> [] \<Longrightarrow>
     \<exists>md'. format_loop env groups n doc_data md =
       Inr (doc_data @ map (\<lambda>(i, g). doc_text_of env i (hd (snd g)) (snd g))
                         (zip [n..<n + length groups] groups), md')"
proof (induction groups arbitrary: n doc_data md)
  case Nil
  then show ?case by simp
next
  case (Cons g groups)
  obtain k chunks where g: "g = (k, chunks)" by (cases g)
  with Cons.prems obtain first_chunk rest where chunks: "chunks = first_chunk # rest"
    by (cases chunks) auto
  have "\<forall>g \<in> set groups. snd g \<noteq> []" using Cons.prems by simp
  from Cons.IH [OF this, of "n + 1" "doc_data @ [doc_text_of env n first_chunk chunks]"
      "AList.update (citation_key_of (get_document_id first_chunk) (get_page_number first_chunk))
         (meta_of env first_chunk) md"]
  obtain md' where "format_loop env groups (n + 1) (doc_data @ [doc_text_of env n first_chunk chunks])
      (AList.update (citation_key_of (get_document_id first_chunk) (get_page_number first_chunk))
         (meta_of env first_chunk) md) =
     Inr ((doc_data @ [doc_text_of env n first_chunk chunks]) @
          map (\<lambda>(i, g). doc_text_of env i (hd (snd g)) (snd g))
            (zip [n + 1..<n + 1 + length groups] groups), md')"
    by blast
  moreover have "zip [n..<n + length (g # groups)] (g # groups) =
      (n, g) # zip [n + 1..<n + 1 + length groups] groups"
    by (simp add: upt_conv_Cons del: upt_Suc)
  ultimately show ?case
    by (simp add: g chunks Let_def del: upt_Suc)
qed

lemma grouped_nonempty: "\<forall>g \<in> set (grouped docs). snd g \<noteq> []"
  by (auto simp: grouped_def filter_empty_conv)

lemma length_grouped: "length (grouped docs) = card (doc_page_id ` set docs)"
  by (simp add: grouped_def length_first_occurrences)

lemma get_docs_blocks:
  "\<exists>md'. get_docs env docs =
     Inr (join ''\<newline>\<newline>''
            (map (\<lambda>(i, g). doc_text_of env i (hd (snd g)) (snd g))
               (zip [1..<1 + length (grouped docs)] (grouped docs))), md')"
proof -
  from format_loop_eq [OF grouped_nonempty, of env docs 1 "[]" "[]"]
  obtain md' where "format_loop env (grouped docs) 1 [] [] =
      Inr ([] @ map (\<lambda>(i, g). doc_text_of env i (hd (snd g)) (snd g))
                  (zip [1..<1 + length (grouped docs)] (grouped docs)), md')"
    by blast
  then show ?thesis by (simp add: get_docs_def group_loop_eq)
qed

lemma doc_page_id_page_key: "doc_page_id d = page_key (doc_page d)"
  by (simp add: doc_page_id_def page_key_def doc_page_def)

lemma page_key_inj: "inj_on page_key (doc_page ` A)"
  by (auto simp: inj_on_def doc_page_id_page_key [symmetric] doc_page_id_eq_iff)

lemma grouped_by_page:
  "grouped docs =
     map (\<lambda>p. (page_key p, filter (\<lambda>d. doc_page d = p) docs))
       (first_occurrences (map doc_page docs))"
proof -
  have "map doc_page_id docs = map page_key (map doc_page docs)"
    by (simp add: doc_page_id_page_key)
  moreover have "inj_on page_key (set (map doc_page docs))"
    using page_key_inj [of "set docs"] by simp
  ultimately have "first_occurrences (map doc_page_id docs) =
      map page_key (first_occurrences (map doc_page docs))"
    by (simp only: first_occurrences_map)
  moreover have "filter (\<lambda>d. doc_page_id d = page_key p) docs = filter (\<lambda>d. doc_page d = p) docs"
    if "p \<in> doc_page ` set docs" for p
    using that by (auto simp: doc_page_id_eq_iff doc_page_id_page_key [symmetric] intro!: filter_cong)
  ultimately show ?thesis
    by (simp add: grouped_def comp_def cong: map_cong)
qed

text \<open>
  Claim C4. For a reranked sequence of at most 8 passages, the assembler returns (it
  never raises) a context of at most 8 blocks, exactly one per distinct
  (document_id, page_number) pair of the sequence. The blocks stand in the order in
  which the pairs first occur; block \<open>i\<close> (from 0) is numbered \<open>i + 1\<close>, takes its
  metadata from the first passage of its pair, and holds the texts of all passages of
  the pair, in their order, joined by the divider.
\<close>

theorem context_blocks_per_page:
  assumes "length docs \<le> 8"
  shows "\<exists>doc_data md.
      format_loop env (group_loop [] docs) 1 [] [] = Inr (doc_data, md)
    \<and> get_docs env docs = Inr (join ''\<newline>\<newline>'' doc_data, md)
    \<and> length doc_data \<le> 8
    \<and> length doc_data = card (doc_page ` set docs)
    \<and> (\<forall>i < length doc_data. \<exists>first_chunk rest.
          filter (\<lambda>d. doc_page d = first_occurrences (map doc_page docs) ! i) docs
            = first_chunk # rest
        \<and> doc_data ! i = doc_text_of env (i + 1) first_chunk (first_chunk # rest)
        \<and> prefix (''=== DOCUMENT '' @ str_nat (i + 1) @ '' ==='') (doc_data ! i)
        \<and> sublist (join ''\<newline>\<newline>---\<newline>\<newline>'' (map page_content (first_chunk # rest)))
             (doc_data ! i))"
proof -
  let ?keys = "first_occurrences (map doc_page docs)"
  let ?G = "grouped docs"
  let ?data = "map (\<lambda>(i, g). doc_text_of env i (hd (snd g)) (snd g)) (zip [1..<1 + length ?G] ?G)"
  from format_loop_eq [OF grouped_nonempty, of env docs 1 "[]" "[]"]
  obtain md where fl: "format_loop env ?G 1 [] [] = Inr (?data, md)"
    by auto
  have len: "length ?data = length ?keys"
    by (simp add: grouped_by_page del: upt_Suc)
  have card: "length ?keys = card (doc_page ` set docs)"
    by (simp add: length_first_occurrences)
  have le: "length ?keys \<le> 8"
    using length_first_occurrences_le [of "map doc_page docs"] assms by simp
  have blocks: "\<exists>first_chunk rest.
          filter (\<lambda>d. doc_page d = ?keys ! i) docs = first_chunk # rest
        \<and> ?data ! i = doc_text_of env (i + 1) first_chunk (first_chunk # rest)
        \<and> prefix (''=== DOCUMENT '' @ str_nat (i + 1) @ '' ==='') (?data ! i)
        \<and> sublist (join ''\<newline>\<newline>---\<newline>\<newline>'' (map page_content (first_chunk # rest)))
             (?data ! i)" if i: "i < length ?data" for i
  proof -
    have ik: "i < length ?keys" using i len by simp
    then have "?keys ! i \<in> set ?keys" by (rule nth_mem)
    then have "?keys ! i \<in> doc_page ` set docs" by simp
    then have "filter (\<lambda>d. doc_page d = ?keys ! i) docs \<noteq> []"
      by (auto simp: filter_empty_conv)
    then obtain first_chunk rest
      where m: "filter (\<lambda>d. doc_page d = ?keys ! i) docs = first_chunk # rest"
      by (cases "filter (\<lambda>d. doc_page d = ?keys ! i) docs") auto
    have gi: "?G ! i = (page_key (?keys ! i), first_chunk # rest)"
      using ik by (simp add: grouped_by_page m)
    have iG: "i < length ?G" using ik by (simp add: grouped_by_page)
    have d: "?data ! i = doc_text_of env (i + 1) first_chunk (first_chunk # rest)"
      using iG by (simp add: gi del: upt_Suc)
    have p: "prefix (''=== DOCUMENT '' @ str_nat (i + 1) @ '' ==='')
        (doc_text_of env (i + 1) first_chunk (first_chunk # rest))"
      unfolding doc_text_of_def prefix_def by simp
    have "doc_text_of env (i + 1) first_chunk (first_chunk # rest) =
        (''=== DOCUMENT '' @ str_nat (i + 1) @ '' ===\<newline>'' @
         ''Source: '' @ get_source first_chunk @ ''\<newline>'' @
         ''Document ID: '' @ get_document_id first_chunk @ ''\<newline>'' @
         ''Page: '' @ str_page (get_page_number first_chunk) @ ''\<newline>'' @
         ''Date: '' @ get_publication_date first_chunk @ ''\<newline>'' @
         ''Link: '' @ source_url_of env first_chunk @ ''\<newline>\<newline>'') @
        join ''\<newline>\<newline>---\<newline>\<newline>'' (map page_content (first_chunk # rest)) @
        (''\<newline>'' @ ''=== END DOCUMENT '' @ str_nat (i + 1) @ '' ==='')"
      by (simp add: doc_text_of_def combined_content_def)
    then have s: "sublist (join ''\<newline>\<newline>---\<newline>\<newline>'' (map page_content (first_chunk # rest)))
        (doc_text_of env (i + 1) first_chunk (first_chunk # rest))"
      unfolding sublist_def by blast
    from m d p s show ?thesis by (simp only:) blast
  qed
  have gd: "get_docs env docs = Inr (join ''\<newline>\<newline>'' ?data, md)"
    using fl by (simp add: get_docs_def group_loop_eq)
  have fl': "format_loop env (group_loop [] docs) 1 [] [] = Inr (?data, md)"
    using fl by (simp only: group_loop_eq)
  have l8: "length ?data \<le> 8" using len le by simp
  have lc: "length ?data = card (doc_page ` set docs)" using len card by simp
  show ?thesis
    by (rule exI [of _ ?data], rule exI [of _ md], intro conjI allI impI)
       (fact fl' gd l8 lc, fact fl' gd l8 lc, fact fl' gd l8 lc, fact fl' gd l8 lc, erule blocks)
qed

lemma str_nat_small: "n < 10 \<Longrightarrow> str_nat n = [digit_char n]"
  by (subst str_nat.simps) simp

lemmas assemble_eval =
  get_docs_def groups_append_def doc_page_id_def get_document_id_def get_page_number_def
  get_source_def get_publication_date_def str_int_def str_nat_small digit_char_def char_eval
  citation_key_of_def meta_of_def doc_text_of_def combined_content_def source_url_of_def
  generate_presigned_url_def doc_a_def doc_b_def doc_c_def Let_def

lemma get_docs_env_ok:
  "get_docs env_ok [doc_a, doc_b, doc_c] =
     Inr (''=== DOCUMENT 1 ===\<newline>Source: DOJ\<newline>Document ID: DOC-001\<newline>Page: 3\<newline>Date: Unknown\<newline>Link: https://bucket/files/DOC-001.pdf\<newline>\<newline>alpha\<newline>\<newline>---\<newline>\<newline>gamma\<newline>=== END DOCUMENT 1 ===\<newline>\<newline>=== DOCUMENT 2 ===\<newline>Source: Unknown\<newline>Document ID: DOC-002\<newline>Page: 1\<newline>Date: 2019-08-10\<newline>Link: N/A\<newline>\<newline>beta\<newline>=== END DOCUMENT 2 ==='',
      [(''DOC-001, Page 3'',
        \<lparr>meta_source = ''DOJ'', meta_document_id = ''DOC-001'',
           meta_page = PageNum 3, meta_s3_key = Some ''files/DOC-001.pdf'',
           meta_url = ''https://bucket/files/DOC-001.pdf''\<rparr>),
       (''DOC-002, Page 1'',
        \<lparr>meta_source = ''Unknown'', meta_document_id = ''DOC-002'',
           meta_page = PageNum 1, meta_s3_key = None,
           meta_url = ''N/A''\<rparr>)])"
  by (simp add: assemble_eval env_ok_def example_client_def)

theorem context_blocks_per_page_witness:
  "length [doc_a, doc_b, doc_c] \<le> 8
   \<and> get_docs env_ok [doc_a, doc_b, doc_c] =
     Inr (''=== DOCUMENT 1 ===\<newline>Source: DOJ\<newline>Document ID: DOC-001\<newline>Page: 3\<newline>Date: Unknown\<newline>Link: https://bucket/files/DOC-001.pdf\<newline>\<newline>alpha\<newline>\<newline>---\<newline>\<newline>gamma\<newline>=== END DOCUMENT 1 ===\<newline>\<newline>=== DOCUMENT 2 ===\<newline>Source: Unknown\<newline>Document ID: DOC-002\<newline>Page: 1\<newline>Date: 2019-08-10\<newline>Link: N/A\<newline>\<newline>beta\<newline>=== END DOCUMENT 2 ==='',
      [(''DOC-001, Page 3'',
        \<lparr>meta_source = ''DOJ'', meta_document_id = ''DOC-001'',
           meta_page = PageNum 3, meta_s3_key = Some ''files/DOC-001.pdf'',
           meta_url = ''https://bucket/files/DOC-001.pdf''\<rparr>),
       (''DOC-002, Page 1'',
        \<lparr>meta_source = ''Unknown'', meta_document_id = ''DOC-002'',
           meta_page = PageNum 1, meta_s3_key = None,
           meta_url = ''N/A''\<rparr>)])"
proof -
  have l: "length [doc_a, doc_b, doc_c] \<le> 8" by simp
  from context_blocks_per_page [OF l, of env_ok]
  obtain doc_data md where r: "get_docs env_ok [doc_a, doc_b, doc_c] = Inr (join ''\<newline>\<newline>'' doc_data, md)"
    and c: "length doc_data = card (doc_page ` set [doc_a, doc_b, doc_c])"
    by blast
  with r c l get_docs_env_ok show ?thesis by simp
qed

lemma get_docs_returns: "\<exists>context md. get_docs env docs = Inr (context, md)"
  using get_docs_blocks [of env docs] by blast

text \<open>
  Claim C7. Assembling the context always returns, whatever the S3 client does. When
  the client or the bucket is unset, the bucket or the key is empty, or the client
  raises, the presigned URL is the sentinel \<open>N/A\<close>; and when a group's first passage
  has no \<open>s3_key\<close>, an empty one, or one whose URL is the sentinel, the group's link is
  the sentinel, in its block and in its citation metadata.
\<close>

theorem link_failure_uses_sentinel:
  "(\<exists>context md. get_docs env docs = Inr (context, md))
   \<and> (s3_client env = None \<or> bucket_name env = None \<or> bucket_name env = Some [] \<or> key = []
        \<or> (\<exists>client bucket e. s3_client env = Some client \<and> bucket_name env = Some bucket
              \<and> client bucket key expiration = Inl e)
      \<longrightarrow> generate_presigned_url env key expiration = ''N/A'')
   \<and> (s3_key first_chunk = None \<or> s3_key first_chunk = Some []
        \<or> (\<exists>k. s3_key first_chunk = Some k \<and> generate_presigned_url env k 3600 = ''N/A'')
      \<longrightarrow> source_url_of env first_chunk = ''N/A''
          \<and> meta_url (meta_of env first_chunk) = ''N/A''
          \<and> sublist ''Link: N/A\<newline>'' (doc_text_of env doc_number first_chunk chunks))"
proof -
  have 1: "generate_presigned_url env key expiration = ''N/A''"
    if "s3_client env = None \<or> bucket_name env = None \<or> bucket_name env = Some [] \<or> key = []
        \<or> (\<exists>client bucket e. s3_client env = Some client \<and> bucket_name env = Some bucket
              \<and> client bucket key expiration = Inl e)"
    using that by (auto simp: generate_presigned_url_def split: option.splits sum.splits)
  have 2: "source_url_of env first_chunk = ''N/A''
          \<and> meta_url (meta_of env first_chunk) = ''N/A''
          \<and> sublist ''Link: N/A\<newline>'' (doc_text_of env doc_number first_chunk chunks)"
    if "s3_key first_chunk = None \<or> s3_key first_chunk = Some []
        \<or> (\<exists>k. s3_key first_chunk = Some k \<and> generate_presigned_url env k 3600 = ''N/A'')"
  proof -
    have u: "source_url_of env first_chunk = ''N/A''"
      using that by (auto simp: source_url_of_def split: option.splits)
    have "doc_text_of env doc_number first_chunk chunks =
        (''=== DOCUMENT '' @ str_nat doc_number @ '' ===\<newline>'' @
         ''Source: '' @ get_source first_chunk @ ''\<newline>'' @
         ''Document ID: '' @ get_document_id first_chunk @ ''\<newline>'' @
         ''Page: '' @ str_page (get_page_number first_chunk) @ ''\<newline>'' @
         ''Date: '' @ get_publication_date first_chunk @ ''\<newline>'') @
        ''Link: N/A\<newline>'' @
        (''\<newline>'' @ combined_content chunks @ ''\<newline>'' @
         ''=== END DOCUMENT '' @ str_nat doc_number @ '' ==='')"
      by (simp add: doc_text_of_def u)
    then have "sublist ''Link: N/A\<newline>'' (doc_text_of env doc_number first_chunk chunks)"
      unfolding sublist_def by blast
    with u show ?thesis by (simp add: meta_of_def)
  qed
  from get_docs_returns 1 2 show ?thesis by blast
qed

theorem link_failure_uses_sentinel_witness:
  "generate_presigned_url env_failing ''files/DOC-001.pdf'' 3600 = ''N/A''
   \<and> source_url_of env_failing doc_a = ''N/A''
   \<and> get_docs env_failing [doc_a, doc_b, doc_c] =
     Inr (''=== DOCUMENT 1 ===\<newline>Source: DOJ\<newline>Document ID: DOC-001\<newline>Page: 3\<newline>Date: Unknown\<newline>Link: N/A\<newline>\<newline>alpha\<newline>\<newline>---\<newline>\<newline>gamma\<newline>=== END DOCUMENT 1 ===\<newline>\<newline>=== DOCUMENT 2 ===\<newline>Source: Unknown\<newline>Document ID: DOC-002\<newline>Page: 1\<newline>Date: 2019-08-10\<newline>Link: N/A\<newline>\<newline>beta\<newline>=== END DOCUMENT 2 ==='',
      [(''DOC-001, Page 3'',
        \<lparr>meta_source = ''DOJ'', meta_document_id = ''DOC-001'',
           meta_page = PageNum 3, meta_s3_key = Some ''files/DOC-001.pdf'',
           meta_url = ''N/A''\<rparr>),
       (''DOC-002, Page 1'',
        \<lparr>meta_source = ''Unknown'', meta_document_id = ''DOC-002'',
           meta_page = PageNum 1, meta_s3_key = None,
           meta_url = ''N/A''\<rparr>)])"
proof -
  have f: "s3_client env_failing = Some failing_client \<and> bucket_name env_failing = Some ''bucket''
      \<and> failing_client ''bucket'' ''files/DOC-001.pdf'' 3600 = Inl ClientError"
    by (simp add: env_failing_def failing_client_def)
  have k: "s3_key doc_a = Some ''files/DOC-001.pdf''"
    by (simp add: doc_a_def)
  have g: "get_docs env_failing [doc_a, doc_b, doc_c] =
     Inr (''=== DOCUMENT 1 ===\<newline>Source: DOJ\<newline>Document ID: DOC-001\<newline>Page: 3\<newline>Date: Unknown\<newline>Link: N/A\<newline>\<newline>alpha\<newline>\<newline>---\<newline>\<newline>gamma\<newline>=== END DOCUMENT 1 ===\<newline>\<newline>=== DOCUMENT 2 ===\<newline>Source: Unknown\<newline>Document ID: DOC-002\<newline>Page: 1\<newline>Date: 2019-08-10\<newline>Link: N/A\<newline>\<newline>beta\<newline>=== END DOCUMENT 2 ==='',
      [(''DOC-001, Page 3'',
        \<lparr>meta_source = ''DOJ'', meta_document_id = ''DOC-001'',
           meta_page = PageNum 3, meta_s3_key = Some ''files/DOC-001.pdf'',
           meta_url = ''N/A''\<rparr>),
       (''DOC-002, Page 1'',
        \<lparr>meta_source = ''Unknown'', meta_document_id = ''DOC-002'',
           meta_page = PageNum 1, meta_s3_key = None,
           meta_url = ''N/A''\<rparr>)])"
    by (simp add: assemble_eval env_failing_def failing_client_def)
  have 1: "generate_presigned_url env_failing ''files/DOC-001.pdf'' 3600 = ''N/A''"
    using link_failure_uses_sentinel [of env_failing "[doc_a, doc_b, doc_c]" "''files/DOC-001.pdf''"
        3600 doc_a 1 "[doc_a, doc_c]"] f
    by blast
  have 2: "source_url_of env_failing doc_a = ''N/A''"
    using link_failure_uses_sentinel [of env_failing "[doc_a, doc_b, doc_c]" "''files/DOC-001.pdf''"
        3600 doc_a 1 "[doc_a, doc_c]"] k 1
    by blast
  from 1 2 g show ?thesis by (simp only: simp_thms)
qed

section \<open>Citation extraction: properties\<close>

lemma unique_loop_first_occurrences:
  "unique_loop (set (first_occurrences pre)) (first_occurrences pre) citations =
     first_occurrences (pre @ map citation_key citations)"
proof (induction citations arbitrary: pre)
  case Nil
  then show ?case by simp
next
  case (Cons c citations)
  obtain doc_id page where c: "c = (doc_id, page)" by (cases c)
  let ?k = "doc_id @ '', Page '' @ page"
  have k: "citation_key c = ?k" by (simp add: c citation_key_def)
  have "unique_loop (set (first_occurrences pre)) (first_occurrences pre) (c # citations) =
      unique_loop (set (first_occurrences (pre @ [?k]))) (first_occurrences (pre @ [?k])) citations"
    by (cases "?k \<in> set pre") (simp_all add: c first_occurrences_snoc Let_def)
  also have "\<dots> = first_occurrences ((pre @ [?k]) @ map citation_key citations)"
    by (rule Cons.IH)
  also have "\<dots> = first_occurrences (pre @ map citation_key (c # citations))"
    by (simp add: k)
  finally show ?case .
qed

lemma unique_loop_eq:
  "unique_loop {} [] citations = first_occurrences (map citation_key citations)"
  using unique_loop_first_occurrences [of "[]" citations] by simp

lemma sources_loop_eq:
  "distinct keys \<Longrightarrow> set keys \<inter> fst ` set cm = {} \<Longrightarrow>
     sources_loop md keys acc cm =
       (acc @ concat (map (listed_line md) keys), cm @ List.map_filter (listed_entry md) keys)"
proof (induction keys arbitrary: acc cm)
  case Nil
  then show ?case by (simp add: List.map_filter_simps)
next
  case (Cons k keys)
  show ?case
  proof (cases "map_of md k")
    case None
    then have "listed_line md k = []" "listed_entry md k = None"
      by (simp_all add: listed_line_def listed_entry_def)
    with None Cons show ?thesis
      by (simp add: List.map_filter_simps)
  next
    case (Some meta)
    have a: "k \<notin> fst ` set cm" using Cons.prems by auto
    have "set keys \<inter> fst ` set (cm @ [(k, meta_url meta)]) = {}"
      using Cons.prems by auto
    with Cons.IH [of "cm @ [(k, meta_url meta)]" "acc @ source_line meta"] Cons.prems
    have "sources_loop md keys (acc @ source_line meta) (cm @ [(k, meta_url meta)]) =
        ((acc @ source_line meta) @ concat (map (listed_line md) keys),
         (cm @ [(k, meta_url meta)]) @ List.map_filter (listed_entry md) keys)"
      by simp
    moreover have "listed_line md k = source_line meta"
      "listed_entry md k = Some (k, meta_url meta)"
      using Some by (simp_all add: listed_line_def listed_entry_def)
    ultimately show ?thesis
      using Some a by (simp add: update_absent List.map_filter_simps)
  qed
qed

lemma not_space_close: "\<not> is_space CHR '')''"
  by (simp add: is_space_def)

lemma match_citation_sound:
  assumes m: "match_citation s = Some ((d, p), rest)"
  shows "\<exists>w1 w2. s = marker d w1 w2 p @ rest \<and> marker_parts d w1 w2 p"
proof -
  from m obtain r r2 c6 where
    s: "s = CHR ''('' # r" and d: "d = takeWhile is_id_char r" "d \<noteq> []"
    and r1: "dropWhile is_id_char r = CHR '','' # r2"
    and pg: "take 4 (dropWhile is_space r2) = ''Page''"
    and r6: "dropWhile not_close (dropWhile is_space (drop 4 (dropWhile is_space r2))) = c6 # rest"
    by (auto simp: match_citation_def Let_def split: list.splits if_splits)
  define w1 where "w1 = takeWhile is_space r2"
  define r4 where "r4 = drop 4 (dropWhile is_space r2)"
  define ws where "ws = takeWhile is_space r4"
  define r5 where "r5 = dropWhile is_space r4"
  define page0 where "page0 = takeWhile not_close r5"
  have r6': "dropWhile not_close r5 = c6 # rest"
    using r6 by (simp add: r5_def r4_def)
  from m have ws: "ws \<noteq> []"
    and p: "p = (if page0 \<noteq> [] then page0 else [last ws])"
    and two: "page0 = [] \<longrightarrow> 2 \<le> length ws"
    unfolding ws_def page0_def r5_def r4_def
    by (auto simp: match_citation_def Let_def s r1 r6 split: list.splits if_splits)
  have "\<not> not_close (hd (dropWhile not_close r5))"
    by (rule hd_dropWhile) (simp add: r6')
  then have c6: "c6 = CHR '')''" by (simp add: r6' not_close_def)
  have r: "r = d @ CHR '','' # r2"
    using takeWhile_dropWhile_id [of is_id_char r] by (simp add: d r1)
  have r2: "r2 = w1 @ ''Page'' @ r4"
    using takeWhile_dropWhile_id [of is_space r2] append_take_drop_id [of 4 "dropWhile is_space r2"]
    unfolding w1_def r4_def pg by simp
  have r4: "r4 = ws @ r5"
    by (simp add: ws_def r5_def)
  have r5: "r5 = page0 @ CHR '')'' # rest"
    using takeWhile_dropWhile_id [of not_close r5] by (simp add: page0_def r6' c6)
  have whole: "s = ''('' @ d @ '','' @ w1 @ ''Page'' @ ws @ page0 @ '')'' @ rest"
    by (simp add: s r r2 r4 r5)
  have id: "list_all is_id_char d"
    unfolding d list_all_iff by (auto dest: set_takeWhileD)
  have sp1: "list_all is_space w1"
    unfolding w1_def list_all_iff by (auto dest: set_takeWhileD)
  have spw: "list_all is_space ws"
    unfolding ws_def list_all_iff by (auto dest: set_takeWhileD)
  have nc: "CHR '')'' \<notin> set page0"
    unfolding page0_def by (auto dest: set_takeWhileD simp: not_close_def)
  show ?thesis
  proof (cases "page0 = []")
    case False
    then have "p = page0" using p by simp
    with whole id sp1 spw nc ws d(2) False have "s = marker d w1 ws p @ rest \<and> marker_parts d w1 ws p"
      by (simp add: marker_def marker_parts_def)
    then show ?thesis by blast
  next
    case True
    then have pl: "p = [last ws]" using p by simp
    have split: "ws = butlast ws @ [last ws]" using ws by simp
    have "is_space (last ws)"
      using spw ws by (simp add: list_all_iff)
    then have "last ws \<noteq> CHR '')''" using not_space_close by auto
    moreover have "butlast ws \<noteq> []"
      using two True by (cases ws rule: rev_cases) auto
    moreover have "list_all is_space (butlast ws)"
      using spw by (auto simp: list_all_iff dest: in_set_butlastD)
    moreover have "s = ''('' @ d @ '','' @ w1 @ ''Page'' @ butlast ws @ [last ws] @ '')'' @ rest"
      using whole True split by (metis append_Nil append_assoc)
    ultimately have "s = marker d w1 (butlast ws) p @ rest \<and> marker_parts d w1 (butlast ws) p"
      using id sp1 d(2) pl by (simp add: marker_def marker_parts_def)
    then show ?thesis by blast
  qed
qed

lemma match_citation_Nil: "match_citation [] = None"
  by (simp add: match_citation_def)

lemma findall_sound:
  "c \<in> set (findall s) \<Longrightarrow> \<exists>n rest. match_citation (drop n s) = Some (c, rest)"
proof (induction s rule: findall.induct)
  case 1
  then show ?case by simp
next
  case (2 x xs)
  show ?case
  proof (cases "match_citation (x # xs)")
    case None
    with 2 obtain n rest where "match_citation (drop n xs) = Some (c, rest)" by auto
    then have "match_citation (drop (Suc n) (x # xs)) = Some (c, rest)" by simp
    then show ?thesis by blast
  next
    case (Some a)
    obtain g rest where a: "a = (g, rest)" by (cases a)
    obtain d p where g: "g = (d, p)" by (cases g)
    show ?thesis
    proof (cases "c = g")
      case True
      then have "match_citation (drop 0 (x # xs)) = Some (c, rest)" using Some a by simp
      then show ?thesis by blast
    next
      case False
      with 2(3) Some a have "c \<in> set (findall rest)" by simp
      from 2(2) [OF Some a [symmetric] this]
      obtain n rest' where n: "match_citation (drop n rest) = Some (c, rest')" by auto
      from match_citation_sound [of "x # xs" d p rest] Some a g
      obtain w1 w2 where "x # xs = marker d w1 w2 p @ rest" by auto
      then have "rest = drop (length (marker d w1 w2 p)) (x # xs)" by (metis append_eq_conv_conj)
      then have "drop n rest = drop (length (marker d w1 w2 p) + n) (x # xs)"
        by (metis drop_drop add.commute)
      with n show ?thesis by metis
    qed
  qed
qed

lemma findall_marker:
  assumes "(d, p) \<in> set (findall s)"
  shows "\<exists>w1 w2. sublist (marker d w1 w2 p) s \<and> marker_parts d w1 w2 p"
proof -
  from findall_sound [OF assms] obtain n rest
    where "match_citation (drop n s) = Some ((d, p), rest)" by blast
  from match_citation_sound [OF this] obtain w1 w2
    where w: "drop n s = marker d w1 w2 p @ rest" "marker_parts d w1 w2 p" by blast
  have "s = take n s @ marker d w1 w2 p @ rest"
    using w(1) append_take_drop_id [of n s] by simp
  then have "sublist (marker d w1 w2 p) s" unfolding sublist_def by blast
  with w(2) show ?thesis by blast
qed

lemma findall_empty_iff: "findall s = [] \<longleftrightarrow> (\<forall>n. match_citation (drop n s) = None)"
proof (induction s rule: findall.induct)
  case 1
  then show ?case by (simp add: match_citation_Nil)
next
  case (2 x xs)
  show ?case
  proof (cases "match_citation (x # xs)")
    case None
    have "(\<forall>n. match_citation (drop n (x # xs)) = None) \<longleftrightarrow> (\<forall>n. match_citation (drop n xs) = None)"
    proof
      assume a: "\<forall>n. match_citation (drop n (x # xs)) = None"
      show "\<forall>n. match_citation (drop n xs) = None"
      proof
        fix n from a have "match_citation (drop (Suc n) (x # xs)) = None" by blast
        then show "match_citation (drop n xs) = None" by simp
      qed
    next
      assume a: "\<forall>n. match_citation (drop n xs) = None"
      show "\<forall>n. match_citation (drop n (x # xs)) = None"
      proof
        fix n show "match_citation (drop n (x # xs)) = None"
          using a None by (cases n) simp_all
      qed
    qed
    with 2(1) [OF None] None show ?thesis by simp
  next
    case (Some a)
    have "\<exists>n. match_citation (drop n (x # xs)) \<noteq> None"
      by (rule exI [of _ 0]) (simp add: Some)
    then have "\<not> (\<forall>n. match_citation (drop n (x # xs)) = None)" by simp
    with Some show ?thesis by (auto split: prod.splits)
  qed
qed

lemma map_fst_listed:
  "map fst (List.map_filter (listed_entry md) ks) = filter (\<lambda>k. map_of md k \<noteq> None) ks"
  by (induction ks) (auto simp: List.map_filter_simps listed_entry_def split: option.splits)

lemma set_listed:
  "(k, u) \<in> set (List.map_filter (listed_entry md) ks) \<Longrightarrow>
     \<exists>meta. map_of md k = Some meta \<and> u = meta_url meta"
  by (induction ks) (auto simp: List.map_filter_simps listed_entry_def split: option.splits)

lemma concat_listed_filter:
  "concat (map (listed_line md) (filter (\<lambda>k. map_of md k \<noteq> None) ks)) =
     concat (map (listed_line md) ks)"
  by (induction ks) (auto simp: listed_line_def)

lemma append_sources_eq:
  "append_sources md a =
     (if findall a = [] then (a, [])
      else (a @ sources_header @
              concat (map (listed_line md) (first_occurrences (map citation_key (findall a)))),
            List.map_filter (listed_entry md) (first_occurrences (map citation_key (findall a)))))"
  using sources_loop_eq [of "first_occurrences (map citation_key (findall a))" "[]" md sources_header]
  by (simp add: append_sources_def unique_loop_eq Let_def)

text \<open>
  Claim C10. When the answer has at least one marker and no key of a marker is in the
  metadata index, the answer is returned with the Sources header appended and nothing
  under it, and the citations map is empty. When the answer has no marker (the pattern
  matches at no position), the answer is returned unchanged, with an empty citations
  map.
\<close>

theorem sources_header_without_entries:
  "(findall a \<noteq> [] \<and> (\<forall>c \<in> set (findall a). map_of md (citation_key c) = None)
      \<longrightarrow> append_sources md a = (a @ ''\<newline>\<newline>---\<newline>\<newline>**Sources:**\<newline>\<newline>'', []))
   \<and> (findall a = [] \<longrightarrow> append_sources md a = (a, []))
   \<and> (findall a = [] \<longleftrightarrow> (\<forall>n. match_citation (drop n a) = None))"
proof -
  have "append_sources md a = (a @ sources_header, [])"
    if ne: "findall a \<noteq> []" and ab: "\<forall>c \<in> set (findall a). map_of md (citation_key c) = None"
  proof -
    let ?u = "first_occurrences (map citation_key (findall a))"
    have "\<forall>k \<in> set ?u. map_of md k = None" using ab by auto
    then have "filter (\<lambda>k. map_of md k \<noteq> None) ?u = []"
      by (auto simp: filter_empty_conv)
    then have "concat (map (listed_line md) ?u) = []" "List.map_filter (listed_entry md) ?u = []"
      using concat_listed_filter [of md ?u] map_fst_listed [of md ?u] by simp_all
    with ne show ?thesis by (simp add: append_sources_eq)
  qed
  moreover have "findall a = [] \<longrightarrow> append_sources md a = (a, [])"
    by (simp add: append_sources_eq)
  ultimately show ?thesis
    using findall_empty_iff [of a] by (simp add: sources_header_def)
qed

lemmas findall_eval = match_citation_def is_id_char_def is_space_def not_close_def Let_def

lemma findall_absent_example:
  "findall ''Known (DOC-999, Page 1).'' = [(''DOC-999'', ''1'')]"
  by (simp add: findall_eval)

lemma findall_none_example: "findall ''No citation (see page 3).'' = []"
  by (simp add: findall_eval)

theorem sources_header_without_entries_witness:
  "findall ''Known (DOC-999, Page 1).'' \<noteq> []
   \<and> map_of example_metadata ''DOC-999, Page 1'' = None
   \<and> append_sources example_metadata ''Known (DOC-999, Page 1).'' =
       (''Known (DOC-999, Page 1).\<newline>\<newline>---\<newline>\<newline>**Sources:**\<newline>\<newline>'', [])
   \<and> findall ''No citation (see page 3).'' = []
   \<and> append_sources example_metadata ''No citation (see page 3).'' = (''No citation (see page 3).'', [])"
proof -
  have ne: "findall ''Known (DOC-999, Page 1).'' \<noteq> []"
    unfolding findall_absent_example by simp
  have miss: "map_of example_metadata ''DOC-999, Page 1'' = None"
    by (simp add: example_metadata_def)
  have ab: "\<forall>c \<in> set (findall ''Known (DOC-999, Page 1).''). map_of example_metadata (citation_key c) = None"
    unfolding findall_absent_example using miss by (simp add: citation_key_def)
  have 1: "append_sources example_metadata ''Known (DOC-999, Page 1).'' =
       (''Known (DOC-999, Page 1).'' @ ''\<newline>\<newline>---\<newline>\<newline>**Sources:**\<newline>\<newline>'', [])"
    using sources_header_without_entries [of "''Known (DOC-999, Page 1).''" example_metadata] ne ab
    by blast
  have 2: "append_sources example_metadata ''No citation (see page 3).'' = (''No citation (see page 3).'', [])"
    using sources_header_without_entries [of "''No citation (see page 3).''" example_metadata]
      findall_none_example
    by blast
  have one: "append_sources example_metadata ''Known (DOC-999, Page 1).'' =
       (''Known (DOC-999, Page 1).\<newline>\<newline>---\<newline>\<newline>**Sources:**\<newline>\<newline>'', [])"
    using 1 by simp
  show ?thesis
    by (intro conjI) (fact ne miss one findall_none_example 2)+
qed

text \<open>
  Claim C1, as the code has it. The keys of the citations map are the keys of the
  markers of the answer that are in the metadata index, each once, in the order of
  their first marker; the Sources section has one line for each of them, in that
  order, and nothing else. Each such key is \<open>ID, Page X\<close> for a marker
  \<open>(ID,\<close> white space \<open>Page\<close> white space \<open>X)\<close> that stands in the answer: the
  identifier and the page text are the marker's, the white space around \<open>Page\<close> is
  not. A key that is not in the index is in neither, and the value of a key is the
  link of its index entry. The function is total: nothing is raised.
\<close>

theorem sources_keys_from_markers:
  "map fst (snd (append_sources md a)) =
      filter (\<lambda>k. map_of md k \<noteq> None) (first_occurrences (map citation_key (findall a)))
   \<and> distinct (map fst (snd (append_sources md a)))
   \<and> fst (append_sources md a) =
       a @ (if findall a = [] then []
            else sources_header @ concat (map (listed_line md) (map fst (snd (append_sources md a)))))
   \<and> (\<forall>k \<in> set (map fst (snd (append_sources md a))).
        \<exists>d p w1 w2. k = d @ '', Page '' @ p \<and> sublist (marker d w1 w2 p) a \<and> marker_parts d w1 w2 p)
   \<and> (\<forall>k. map_of md k = None \<longrightarrow> k \<notin> set (map fst (snd (append_sources md a))))
   \<and> (\<forall>k u. (k, u) \<in> set (snd (append_sources md a))
        \<longrightarrow> (\<exists>meta. map_of md k = Some meta \<and> u = meta_url meta))"
proof -
  let ?u = "first_occurrences (map citation_key (findall a))"
  let ?l = "filter (\<lambda>k. map_of md k \<noteq> None) ?u"
  have keys: "map fst (snd (append_sources md a)) = ?l"
    by (simp add: append_sources_eq map_fst_listed)
  have dist: "distinct ?l" by simp
  have ans: "fst (append_sources md a) =
       a @ (if findall a = [] then [] else sources_header @ concat (map (listed_line md) ?l))"
    unfolding append_sources_eq concat_listed_filter by simp
  have mark: "\<exists>d p w1 w2. k = d @ '', Page '' @ p \<and> sublist (marker d w1 w2 p) a \<and> marker_parts d w1 w2 p"
    if "k \<in> set ?l" for k
  proof -
    from that have "k \<in> citation_key ` set (findall a)" by simp
    then obtain d p where dp: "(d, p) \<in> set (findall a)" and k: "k = d @ '', Page '' @ p"
      by (auto simp: citation_key_def)
    from findall_marker [OF dp] k show ?thesis by blast
  qed
  have absent: "map_of md k = None \<longrightarrow> k \<notin> set ?l" for k by simp
  have urls: "(k, u) \<in> set (snd (append_sources md a))
        \<longrightarrow> (\<exists>meta. map_of md k = Some meta \<and> u = meta_url meta)" for k u
    by (auto simp: append_sources_eq dest: set_listed)
  show ?thesis
    unfolding keys using dist ans mark absent urls by (intro conjI ballI allI) blast+
qed

lemma append_sources_compact_example:
  "append_sources example_metadata ''Seen (DOC-001,Page 3) and (DOC-001,Page 3).'' =
     (''Seen (DOC-001,Page 3) and (DOC-001,Page 3).\<newline>\<newline>---\<newline>\<newline>**Sources:**\<newline>\<newline>- **DOC-001, Page 3 - DOJ** - [View Document](https://bucket/files/DOC-001.pdf)\<newline>'',
      [(''DOC-001, Page 3'', ''https://bucket/files/DOC-001.pdf'')])"
  by (simp add: append_sources_def findall_eval example_metadata_def sources_header_def
        source_line_def str_int_def str_nat_small digit_char_def char_eval)

lemma key_not_in_answer:
  "\<not> sublist ''DOC-001, Page 3'' ''Seen (DOC-001,Page 3) and (DOC-001,Page 3).''"
  by code_simp

lemma marker_in_answer:
  "sublist ''(DOC-001,Page 3)'' ''Seen (DOC-001,Page 3) and (DOC-001,Page 3).''"
  by code_simp

text \<open>
  Claim C1 as stated fails: a marker written without a space after the comma is
  matched, and its key, with the space, is listed although the answer nowhere contains
  it.
\<close>

theorem sources_key_not_verbatim:
  "append_sources example_metadata ''Seen (DOC-001,Page 3) and (DOC-001,Page 3).'' =
     (''Seen (DOC-001,Page 3) and (DOC-001,Page 3).\<newline>\<newline>---\<newline>\<newline>**Sources:**\<newline>\<newline>- **DOC-001, Page 3 - DOJ** - [View Document](https://bucket/files/DOC-001.pdf)\<newline>'',
      [(''DOC-001, Page 3'', ''https://bucket/files/DOC-001.pdf'')])
   \<and> \<not> sublist ''DOC-001, Page 3'' ''Seen (DOC-001,Page 3) and (DOC-001,Page 3).''"
  using append_sources_compact_example key_not_in_answer by (simp only: simp_thms)

theorem sources_keys_from_markers_witness:
  "map fst (snd (append_sources example_metadata ''Seen (DOC-001,Page 3) and (DOC-001,Page 3).''))
       = [''DOC-001, Page 3'']
   \<and> ''DOC-001, Page 3'' = ''DOC-001'' @ '', Page '' @ ''3''
   \<and> sublist (marker ''DOC-001'' [] '' '' ''3'') ''Seen (DOC-001,Page 3) and (DOC-001,Page 3).''
   \<and> distinct (map fst (snd (append_sources example_metadata
         ''Seen (DOC-001,Page 3) and (DOC-001,Page 3).'')))"
proof -
  have d: "distinct (map fst (snd (append_sources example_metadata
         ''Seen (DOC-001,Page 3) and (DOC-001,Page 3).'')))"
    using sources_keys_from_markers [of example_metadata
        "''Seen (DOC-001,Page 3) and (DOC-001,Page 3).''"]
    by blast
  have m: "sublist (marker ''DOC-001'' [] '' '' ''3'') ''Seen (DOC-001,Page 3) and (DOC-001,Page 3).''"
    using marker_in_answer by (simp add: marker_def)
  from d m show ?thesis by (simp add: append_sources_compact_example)
qed

section \<open>Session store: properties\<close>

lemma evict_loop_keep:
  "session_id \<in> fst ` set store \<or> length store < MAX_SESSIONS \<Longrightarrow>
     evict_loop session_id store n = Inr (store, n)"
  by (subst evict_loop.simps) auto

lemma delete_head: "distinct (map fst (x # xs)) \<Longrightarrow> AList.delete (fst x) (x # xs) = xs"
  by (auto simp: AList.delete_eq intro!: filter_True) (metis fst_conv image_eqI)

lemma evict_loop_full:
  "distinct (map fst store) \<Longrightarrow> session_id \<notin> fst ` set store \<Longrightarrow> length store \<ge> MAX_SESSIONS \<Longrightarrow>
     evict_loop session_id store n =
       Inr (drop (length store - (MAX_SESSIONS - 1)) store, n + (length store - (MAX_SESSIONS - 1)))"
proof (induction store arbitrary: n)
  case Nil
  then show ?case by (simp add: MAX_SESSIONS_def)
next
  case (Cons x xs)
  obtain k h where x: "x = (k, h)" by (cases x)
  have step: "evict_loop session_id (x # xs) n = evict_loop session_id xs (n + 1)"
    using Cons.prems delete_head [of x xs] by (subst evict_loop.simps) (simp add: x)
  show ?case
  proof (cases "length xs \<ge> MAX_SESSIONS")
    case True
    with Cons have "evict_loop session_id xs (n + 1) =
        Inr (drop (length xs - (MAX_SESSIONS - 1)) xs, n + 1 + (length xs - (MAX_SESSIONS - 1)))"
      by simp
    moreover have "length (x # xs) - (MAX_SESSIONS - 1) = Suc (length xs - (MAX_SESSIONS - 1))"
      using True by (simp add: MAX_SESSIONS_def)
    ultimately show ?thesis using step by simp
  next
    case False
    then have "evict_loop session_id xs (n + 1) = Inr (xs, n + 1)"
      by (simp add: evict_loop_keep)
    moreover have "length xs = MAX_SESSIONS - 1" using False Cons.prems(3) by (simp add: MAX_SESSIONS_def)
    ultimately show ?thesis using step by (simp add: MAX_SESSIONS_def)
  qed
qed

lemma evict_loop_returns: "\<exists>store' n'. evict_loop session_id store n = Inr (store', n')"
proof (induction session_id store n rule: evict_loop.induct)
  case (1 session_id store sessions_deleted)
  show ?case
  proof (cases "session_id \<notin> fst ` set store \<and> length store \<ge> MAX_SESSIONS")
    case False
    then show ?thesis by (subst evict_loop.simps) auto
  next
    case True
    then obtain k h rest where s: "store = (k, h) # rest"
      by (cases store) (auto simp: MAX_SESSIONS_def)
    from 1 [OF True s refl] obtain store' n'
      where "evict_loop session_id (AList.delete k store) (sessions_deleted + 1) = Inr (store', n')"
      by blast
    with True s show ?thesis by (subst evict_loop.simps) auto
  qed
qed

lemma evict_loop_lookup:
  "evict_loop session_id store n = Inr (store', n') \<Longrightarrow> map_of store' session_id = map_of store session_id"
proof (induction session_id store n rule: evict_loop.induct)
  case (1 session_id store sessions_deleted)
  show ?case
  proof (cases "session_id \<notin> fst ` set store \<and> length store \<ge> MAX_SESSIONS")
    case False
    with 1(2) show ?thesis by (subst (asm) evict_loop.simps) auto
  next
    case True
    then obtain k h rest where s: "store = (k, h) # rest"
      by (cases store) (auto simp: MAX_SESSIONS_def)
    have e: "evict_loop session_id (AList.delete k store) (sessions_deleted + 1) = Inr (store', n')"
      using 1(2) True s by (subst (asm) evict_loop.simps) auto
    have "k \<noteq> session_id" using True s by auto
    then have "map_of (AList.delete k store) session_id = map_of store session_id"
      by (simp add: AList.delete_conv')
    with 1(1) [OF True s refl e] show ?thesis by simp
  qed
qed

lemma in_keys_iff: "k \<in> fst ` set al \<longleftrightarrow> map_of al k \<noteq> None"
  by (simp add: map_of_eq_None_iff)

lemma length_last4: "length (last4 ms) = min 4 (length ms)"
  by (auto simp: last4_def)

lemma get_session_history_existing:
  assumes "map_of store session_id = Some messages"
  shows "get_session_history store session_id =
           Inr (AList.update session_id (last4 messages) store, last4 messages, 0)"
proof -
  have "session_id \<in> fst ` set store" using assms by (simp add: in_keys_iff)
  then show ?thesis
    using assms by (simp add: get_session_history_def evict_loop_keep Let_def)
qed

lemma get_session_history_fresh:
  assumes "evict_loop session_id store 0 = Inr (store1, n)" "session_id \<notin> fst ` set store"
  shows "get_session_history store session_id = Inr (store1 @ [(session_id, [])], [], n)"
proof -
  have "map_of store1 session_id = None"
    using evict_loop_lookup [OF assms(1)] assms(2) by (simp add: in_keys_iff)
  then have a: "session_id \<notin> fst ` set store1" by (simp add: in_keys_iff)
  then have u: "AList.update session_id [] store1 = store1 @ [(session_id, [])]"
    by (rule update_absent)
  have m: "map_of (store1 @ [(session_id, [])]) session_id = Some []"
    using \<open>map_of store1 session_id = None\<close> by (simp add: map_add_def)
  have "AList.update session_id [] (store1 @ [(session_id, [])]) = store1 @ [(session_id, [])]"
    using m by (rule AList.update_triv)
  with a u m assms(1) show ?thesis
    by (simp add: get_session_history_def last4_def Let_def)
qed

lemma get_session_history_returns:
  "\<exists>store' history n. get_session_history store session_id = Inr (store', history, n)
     \<and> map_of store' session_id = Some history
     \<and> history = last4 (case map_of store session_id of Some ms \<Rightarrow> ms | None \<Rightarrow> [])"
proof (cases "map_of store session_id")
  case None
  obtain store1 n where e: "evict_loop session_id store 0 = Inr (store1, n)"
    using evict_loop_returns by blast
  have f: "session_id \<notin> fst ` set store" using None by (simp add: in_keys_iff)
  have "map_of store1 session_id = None"
    using evict_loop_lookup [OF e] None by simp
  then have "map_of (store1 @ [(session_id, [])]) session_id = Some []"
    by (simp add: map_add_def)
  moreover have "last4 (case map_of store session_id of Some ms \<Rightarrow> ms | None \<Rightarrow> []) = []"
    by (simp add: None last4_def)
  ultimately show ?thesis
    using get_session_history_fresh [OF e f] by simp
next
  case (Some ms)
  from get_session_history_existing [OF Some] Some show ?thesis
    by (simp add: AList.update_conv')
qed

lemma length_update_present:
  "k \<in> fst ` set al \<Longrightarrow> length (AList.update k v al) = length al"
  by (induction al) auto

lemma update_keys_present:
  "k \<in> fst ` set al \<Longrightarrow> map fst (AList.update k v al) = map fst al"
  by (simp add: AList.update_keys)

lemma get_session_history_step:
  assumes "distinct (map fst store)" and "length store \<le> MAX_SESSIONS"
  shows "\<exists>store' history sessions_deleted.
      get_session_history store session_id = Inr (store', history, sessions_deleted)
    \<and> length store' \<le> MAX_SESSIONS \<and> distinct (map fst store')
    \<and> (session_id \<in> fst ` set store \<longrightarrow>
          map fst store' = map fst store \<and> sessions_deleted = 0)
    \<and> (session_id \<notin> fst ` set store \<and> length store < MAX_SESSIONS \<longrightarrow>
          store' = store @ [(session_id, [])] \<and> history = [] \<and> sessions_deleted = 0)
    \<and> (session_id \<notin> fst ` set store \<and> length store = MAX_SESSIONS \<longrightarrow>
          store' = tl store @ [(session_id, [])] \<and> history = [] \<and> sessions_deleted = 1)"
proof (cases "session_id \<in> fst ` set store")
  case True
  then obtain ms where ms: "map_of store session_id = Some ms"
    by (auto simp: in_keys_iff)
  from get_session_history_existing [OF ms] True assms show ?thesis
    by (simp add: update_keys_present length_update_present)
next
  case False
  show ?thesis
  proof (cases "length store < MAX_SESSIONS")
    case True
    have "evict_loop session_id store 0 = Inr (store, 0)"
      using True by (simp add: evict_loop_keep)
    from get_session_history_fresh [OF this False] True False assms show ?thesis
      by simp
  next
    case full: False
    with assms(2) have len: "length store = MAX_SESSIONS" by simp
    have "evict_loop session_id store 0 =
        Inr (drop (length store - (MAX_SESSIONS - 1)) store, 0 + (length store - (MAX_SESSIONS - 1)))"
      using assms(1) False len by (intro evict_loop_full) simp_all
    then have e: "evict_loop session_id store 0 = Inr (tl store, 1)"
      using len by (simp add: MAX_SESSIONS_def drop_Suc)
    have "distinct (map fst (tl store))"
      using assms(1) by (cases store) auto
    moreover have "session_id \<notin> fst ` set (tl store)"
      using False by (cases store) auto
    moreover have "length (tl store) < MAX_SESSIONS"
      using len by (simp add: MAX_SESSIONS_def)
    ultimately show ?thesis
      using get_session_history_fresh [OF e False] False len by (simp add: image_iff)
  qed
qed

lemma keys_empty_sessions [simp]: "map fst (empty_sessions ids) = ids"
  by (simp add: empty_sessions_def comp_def)

lemma use_sessions_fresh:
  assumes "distinct (map fst store @ ids)" and "length store \<le> MAX_SESSIONS"
  shows "use_sessions store n ids =
           Inr (drop (length store + length ids - MAX_SESSIONS) (store @ empty_sessions ids),
                n + (length store + length ids - MAX_SESSIONS))"
  using assms
proof (induction ids arbitrary: store n)
  case Nil
  then show ?case by (simp add: empty_sessions_def)
next
  case (Cons k ids)
  have fresh: "k \<notin> fst ` set store" using Cons.prems(1) by auto
  have d: "distinct (map fst store)" using Cons.prems(1) by simp
  from get_session_history_step [OF d Cons.prems(2), of k]
  obtain store' history sessions_deleted where
    g: "get_session_history store k = Inr (store', history, sessions_deleted)"
    and below: "length store < MAX_SESSIONS \<longrightarrow> store' = store @ [(k, [])] \<and> sessions_deleted = 0"
    and full: "length store = MAX_SESSIONS \<longrightarrow> store' = tl store @ [(k, [])] \<and> sessions_deleted = 1"
    using fresh by blast
  have step: "use_sessions store n (k # ids) = use_sessions store' (n + sessions_deleted) ids"
    by (simp add: g)
  show ?case
  proof (cases "length store < MAX_SESSIONS")
    case True
    with below have s: "store' = store @ [(k, [])]" "sessions_deleted = 0" by simp_all
    have "distinct (map fst store' @ ids)" using Cons.prems(1) by (simp add: s)
    moreover have "length store' \<le> MAX_SESSIONS" using True by (simp add: s)
    ultimately have "use_sessions store' (n + sessions_deleted) ids =
        Inr (drop (length store' + length ids - MAX_SESSIONS) (store' @ empty_sessions ids),
             n + sessions_deleted + (length store' + length ids - MAX_SESSIONS))"
      by (rule Cons.IH)
    then show ?thesis unfolding step by (simp add: s empty_sessions_def)
  next
    case False
    with Cons.prems(2) have len: "length store = MAX_SESSIONS" by simp
    with full have s: "store' = tl store @ [(k, [])]" "sessions_deleted = 1" by simp_all
    obtain x xs where st: "store = x # xs" using len by (cases store) (auto simp: MAX_SESSIONS_def)
    have len': "length store' = MAX_SESSIONS" using len by (simp add: s st)
    have "distinct (map fst store' @ ids)" using Cons.prems(1) by (auto simp: s st)
    moreover have "length store' \<le> MAX_SESSIONS" using len' by simp
    ultimately have "use_sessions store' (n + sessions_deleted) ids =
        Inr (drop (length store' + length ids - MAX_SESSIONS) (store' @ empty_sessions ids),
             n + sessions_deleted + (length store' + length ids - MAX_SESSIONS))"
      by (rule Cons.IH)
    moreover have "length store' + length ids - MAX_SESSIONS = length ids"
      using len' by simp
    ultimately have "use_sessions store' (n + sessions_deleted) ids =
        Inr (drop (length ids) (store' @ empty_sessions ids), n + sessions_deleted + length ids)"
      by (simp only:)
    then have "use_sessions store' (n + sessions_deleted) ids =
        Inr (drop (length ids) (xs @ (k, []) # empty_sessions ids), n + 1 + length ids)"
      by (simp add: s st)
    moreover have "drop (length store + length (k # ids) - MAX_SESSIONS) (store @ empty_sessions (k # ids))
        = drop (length ids) (xs @ (k, []) # empty_sessions ids)"
    proof -
      have "length store + length (k # ids) - MAX_SESSIONS = Suc (length ids)"
        using len by simp
      then show ?thesis by (simp only:) (simp add: st empty_sessions_def)
    qed
    moreover have "n + (length store + length (k # ids) - MAX_SESSIONS) = n + 1 + length ids"
      by (simp add: len)
    ultimately show ?thesis unfolding step by (simp only:)
  qed
qed

lemma use_sessions_distinct:
  assumes "distinct ids"
  shows "use_sessions [] 0 ids =
           Inr (empty_sessions (drop (length ids - MAX_SESSIONS) ids), length ids - MAX_SESSIONS)"
  using use_sessions_fresh [of "[]" ids 0] assms
  by (simp add: empty_sessions_def drop_map)

text \<open>
  Claim C5. A store of at most 50 sessions stays one: a fetch of a session that the
  store holds evicts nothing and leaves the order of the sessions as it is; a fetch of
  a new session below capacity adds it at the end; a fetch of a new session at
  capacity evicts exactly one session, the first of the store, which is the one
  created first, however recently it was used, and adds the new one at the end. The
  loop evicts from the front, one session at a time, until 49 are left. Used one after
  the other from the empty store, distinct session ids leave the last 50 of them and
  evict all before; 51 of them evict exactly one, the first.
\<close>

theorem session_eviction_creation_order:
  assumes "distinct (map fst store)" and "length store \<le> MAX_SESSIONS" and "distinct ids"
  shows "(\<exists>store' history sessions_deleted.
        get_session_history store session_id = Inr (store', history, sessions_deleted)
      \<and> length store' \<le> MAX_SESSIONS \<and> distinct (map fst store')
      \<and> (session_id \<in> fst ` set store \<longrightarrow>
            map fst store' = map fst store \<and> sessions_deleted = 0)
      \<and> (session_id \<notin> fst ` set store \<and> length store < MAX_SESSIONS \<longrightarrow>
            store' = store @ [(session_id, [])] \<and> history = [] \<and> sessions_deleted = 0)
      \<and> (session_id \<notin> fst ` set store \<and> length store = MAX_SESSIONS \<longrightarrow>
            store' = tl store @ [(session_id, [])] \<and> history = [] \<and> sessions_deleted = 1))
    \<and> (distinct (map fst big) \<and> session_id \<notin> fst ` set big \<and> length big \<ge> MAX_SESSIONS \<longrightarrow>
          evict_loop session_id big 0 =
            Inr (drop (length big - (MAX_SESSIONS - 1)) big, length big - (MAX_SESSIONS - 1)))
    \<and> use_sessions [] 0 ids =
         Inr (empty_sessions (drop (length ids - MAX_SESSIONS) ids), length ids - MAX_SESSIONS)
    \<and> (length ids = 51 \<longrightarrow> use_sessions [] 0 ids = Inr (empty_sessions (tl ids), 1))"
proof -
  have seq: "use_sessions [] 0 ids = Inr (empty_sessions (tl ids), 1)" if "length ids = 51"
    using use_sessions_distinct [OF assms(3)] that by (simp add: MAX_SESSIONS_def drop_Suc)
  have over: "evict_loop session_id big 0 =
      Inr (drop (length big - (MAX_SESSIONS - 1)) big, length big - (MAX_SESSIONS - 1))"
    if "distinct (map fst big) \<and> session_id \<notin> fst ` set big \<and> length big \<ge> MAX_SESSIONS"
    using evict_loop_full [of big session_id 0] that by simp
  from get_session_history_step [OF assms(1,2), of session_id] over
    use_sessions_distinct [OF assms(3)] seq
  show ?thesis by blast
qed

lemma distinct_session_ids: "distinct (session_ids n)"
  by (auto simp: session_ids_def distinct_map inj_on_def dest: str_nat_inj)

lemma length_session_ids: "length (session_ids n) = n"
  by (simp add: session_ids_def)

lemma session_id_fresh: "n \<le> i \<Longrightarrow> ''s'' @ str_nat i \<notin> set (session_ids n)"
  by (auto simp: session_ids_def dest: str_nat_inj)

lemma str_nat_50: "str_nat 50 = ''50''"
  by code_simp

lemma hd_session_ids_51: "hd (session_ids 51) = ''s0''"
  by code_simp

theorem session_eviction_creation_order_witness:
  "distinct (map fst (empty_sessions (session_ids 50)))
   \<and> length (empty_sessions (session_ids 50)) \<le> MAX_SESSIONS
   \<and> distinct (session_ids 51) \<and> length (session_ids 51) = 51
   \<and> hd (session_ids 51) = ''s0''
   \<and> use_sessions [] 0 (session_ids 51) = Inr (empty_sessions (tl (session_ids 51)), 1)
   \<and> get_session_history (empty_sessions (session_ids 50)) ''s50'' =
        Inr (tl (empty_sessions (session_ids 50)) @ [(''s50'', [])], [], 1)"
proof -
  let ?store = "empty_sessions (session_ids 50)"
  have d: "distinct (map fst ?store)" by (simp add: distinct_session_ids)
  have l: "length ?store \<le> MAX_SESSIONS"
    by (simp add: empty_sessions_def length_session_ids MAX_SESSIONS_def)
  have full: "length ?store = MAX_SESSIONS"
    by (simp add: empty_sessions_def length_session_ids MAX_SESSIONS_def)
  have "''s'' @ str_nat 50 \<notin> set (session_ids 50)" by (rule session_id_fresh) simp
  then have fresh: "''s50'' \<notin> fst ` set ?store"
    by (simp add: str_nat_50 empty_sessions_def image_image)
  note t = session_eviction_creation_order [OF d l distinct_session_ids [of 51], of "''s50''" ?store]
  from t fresh full have g: "get_session_history ?store ''s50'' =
        Inr (tl ?store @ [(''s50'', [])], [], 1)"
    by (elim conjE exE) simp
  have u: "use_sessions [] 0 (session_ids 51) = Inr (empty_sessions (tl (session_ids 51)), 1)"
    by (rule t [THEN conjunct2, THEN conjunct2, THEN conjunct2, rule_format, OF length_session_ids])
  show ?thesis
    by (intro conjI)
       (fact d l distinct_session_ids length_session_ids hd_session_ids_51 u g)+
qed

lemma add_message_lookup:
  "map_of store session_id = Some messages \<Longrightarrow>
     map_of (add_message store session_id m) session_id = Some (messages @ [m])"
  by (simp add: add_message_def AList.update_conv')

lemma exchange_result:
  "\<exists>store'. exchange store session_id turn = Inr store'
     \<and> map_of store' session_id =
         Some (last4 (case map_of store session_id of Some ms \<Rightarrow> ms | None \<Rightarrow> [])
               @ [(''human'', fst turn), (''ai'', snd turn)])"
proof -
  from get_session_history_returns [of store session_id]
  obtain store1 history n where g: "get_session_history store session_id = Inr (store1, history, n)"
    and m: "map_of store1 session_id = Some history"
    and h: "history = last4 (case map_of store session_id of Some ms \<Rightarrow> ms | None \<Rightarrow> [])"
    by blast
  have "map_of (add_message (add_message store1 session_id (''human'', fst turn)) session_id
          (''ai'', snd turn)) session_id = Some ((history @ [(''human'', fst turn)]) @ [(''ai'', snd turn)])"
    by (intro add_message_lookup m)
  then show ?thesis by (simp add: exchange_def g h)
qed

lemma last4_two_exchanges: "last4 (last4 (h @ [a, b]) @ [c, d]) = [a, b, c, d]"
  by (simp add: last4_def)

lemma last4_six: "last4 [a, b, c, d, e, f] = [c, d, e, f]"
  by (simp add: last4_def)

text \<open>
  Claim C6, as the code has it. Every fetch returns, truncates the stored history of
  the session to its last 4 entries and returns these. An append adds its message and
  truncates nothing. After three exchanges with one session its stored history holds
  the 6 messages of the three, and the next fetch returns exactly the last 4 of them.
\<close>

theorem history_truncated_on_fetch:
  "(\<exists>store' history n.
        get_session_history store session_id = Inr (store', history, n)
      \<and> map_of store' session_id = Some history
      \<and> history = last4 (case map_of store session_id of Some ms \<Rightarrow> ms | None \<Rightarrow> [])
      \<and> length history \<le> 4)
   \<and> (map_of store session_id = Some messages \<longrightarrow>
        map_of (add_message store session_id m) session_id = Some (messages @ [m]))
   \<and> (\<exists>store3 store4.
        exchanges store session_id [t1, t2, t3] = Inr store3
      \<and> map_of store3 session_id =
          Some [(''human'', fst t1), (''ai'', snd t1), (''human'', fst t2), (''ai'', snd t2),
                (''human'', fst t3), (''ai'', snd t3)]
      \<and> get_session_history store3 session_id =
          Inr (store4, [(''human'', fst t2), (''ai'', snd t2), (''human'', fst t3), (''ai'', snd t3)], 0))"
proof -
  have fetch: "\<exists>store' history n.
        get_session_history store session_id = Inr (store', history, n)
      \<and> map_of store' session_id = Some history
      \<and> history = last4 (case map_of store session_id of Some ms \<Rightarrow> ms | None \<Rightarrow> [])
      \<and> length history \<le> 4"
    using get_session_history_returns [of store session_id] by (auto simp: length_last4)
  from exchange_result [of store session_id t1] obtain s1 h0 where
    e1: "exchange store session_id t1 = Inr s1"
    and m1: "map_of s1 session_id = Some (h0 @ [(''human'', fst t1), (''ai'', snd t1)])"
    by blast
  from exchange_result [of s1 session_id t2] m1 obtain s2 where
    e2: "exchange s1 session_id t2 = Inr s2"
    and m2: "map_of s2 session_id =
       Some (last4 (h0 @ [(''human'', fst t1), (''ai'', snd t1)]) @ [(''human'', fst t2), (''ai'', snd t2)])"
    by auto
  from exchange_result [of s2 session_id t3] m2 obtain s3 where
    e3: "exchange s2 session_id t3 = Inr s3"
    and m3: "map_of s3 session_id =
       Some (last4 (last4 (h0 @ [(''human'', fst t1), (''ai'', snd t1)])
                     @ [(''human'', fst t2), (''ai'', snd t2)])
             @ [(''human'', fst t3), (''ai'', snd t3)])"
    by auto
  have m3': "map_of s3 session_id =
          Some [(''human'', fst t1), (''ai'', snd t1), (''human'', fst t2), (''ai'', snd t2),
                (''human'', fst t3), (''ai'', snd t3)]"
    using m3 by (simp only: last4_two_exchanges) simp
  have ex: "exchanges store session_id [t1, t2, t3] = Inr s3"
    by (simp add: e1 e2 e3)
  have "get_session_history s3 session_id =
      Inr (AList.update session_id
             (last4 [(''human'', fst t1), (''ai'', snd t1), (''human'', fst t2), (''ai'', snd t2),
                     (''human'', fst t3), (''ai'', snd t3)]) s3,
           last4 [(''human'', fst t1), (''ai'', snd t1), (''human'', fst t2), (''ai'', snd t2),
                  (''human'', fst t3), (''ai'', snd t3)], 0)"
    by (rule get_session_history_existing [OF m3'])
  then have "\<exists>store4. get_session_history s3 session_id =
          Inr (store4, [(''human'', fst t2), (''ai'', snd t2), (''human'', fst t3), (''ai'', snd t3)], 0)"
    by (simp add: last4_six)
  with ex m3' have three: "\<exists>store3 store4.
        exchanges store session_id [t1, t2, t3] = Inr store3
      \<and> map_of store3 session_id =
          Some [(''human'', fst t1), (''ai'', snd t1), (''human'', fst t2), (''ai'', snd t2),
                (''human'', fst t3), (''ai'', snd t3)]
      \<and> get_session_history store3 session_id =
          Inr (store4, [(''human'', fst t2), (''ai'', snd t2), (''human'', fst t3), (''ai'', snd t3)], 0)"
    by blast
  from fetch add_message_lookup [of store session_id messages m] three show ?thesis
    by blast
qed

lemma three_exchanges_example:
  "exchanges [] ''s'' [(''q1'', ''a1''), (''q2'', ''a2''), (''q3'', ''a3'')] =
     Inr [(''s'', [(''human'', ''q1''), (''ai'', ''a1''), (''human'', ''q2''), (''ai'', ''a2''),
                   (''human'', ''q3''), (''ai'', ''a3'')])]"
  by code_simp

text \<open>
  Claim C6 as stated fails: after the appends of the third exchange the history of the
  session holds 6 entries, not its last 4.
\<close>

theorem history_not_truncated_on_append:
  "exchanges [] ''s'' [(''q1'', ''a1''), (''q2'', ''a2''), (''q3'', ''a3'')] =
     Inr [(''s'', [(''human'', ''q1''), (''ai'', ''a1''), (''human'', ''q2''), (''ai'', ''a2''),
                   (''human'', ''q3''), (''ai'', ''a3'')])]
   \<and> length [(''human'', ''q1''), (''ai'', ''a1''), (''human'', ''q2''), (''ai'', ''a2''),
              (''human'', ''q3''), (''ai'', ''a3'')] = (6 :: nat)
   \<and> last4 [(''human'', ''q1''), (''ai'', ''a1''), (''human'', ''q2''), (''ai'', ''a2''),
             (''human'', ''q3''), (''ai'', ''a3'')]
       \<noteq> [(''human'', ''q1''), (''ai'', ''a1''), (''human'', ''q2''), (''ai'', ''a2''),
           (''human'', ''q3''), (''ai'', ''a3'')]"
  using three_exchanges_example by (simp add: last4_def)

theorem history_truncated_on_fetch_witness:
  "map_of [(''s'', [(''human'', ''q1''), (''ai'', ''a1'')])] ''s'' = Some [(''human'', ''q1''), (''ai'', ''a1'')]
   \<and> map_of (add_message [(''s'', [(''human'', ''q1''), (''ai'', ''a1'')])] ''s'' (''human'', ''q2'')) ''s''
        = Some [(''human'', ''q1''), (''ai'', ''a1''), (''human'', ''q2'')]"
  using history_truncated_on_fetch [of "[(''s'', [(''human'', ''q1''), (''ai'', ''a1'')])]" "''s''"
      "[(''human'', ''q1''), (''ai'', ''a1'')]" "(''human'', ''q2'')"]
  by simp

end
